theory Spec2Isabelle
  imports Main "HOL-Library.Word" "HOL-Library.AList"
begin

section \<open>The symbol indexer of rtags (src/rbuild/RBuild.cpp)\<close>

text \<open>
  A shallow embedding of the indexing engine of \<^verbatim>\<open>RBuild.cpp\<close>: the identity of a
  cursor occurrence (\<^verbatim>\<open>CursorKey\<close>), the visitor that merges repeated visits of one
  location (\<^verbatim>\<open>collectSymbols\<close>), the back-reference pass and the writers of
  \<^verbatim>\<open>RBuild::writeData\<close>, the inclusion walker (\<^verbatim>\<open>getInclusions\<close>) and the staleness
  scan (\<^verbatim>\<open>RBuild::updateDB\<close>). The function \<^verbatim>\<open>referencedCursor\<close> of the file is
  never called and is left out.

  Conventions. \<^verbatim>\<open>unsigned\<close> is a 32-bit word, \<^verbatim>\<open>time_t\<close> and the enumeration
  \<^verbatim>\<open>CXCursorKind\<close> are integers, \<^verbatim>\<open>QByteArray\<close>, \<^verbatim>\<open>AtomicString\<close> and \<^verbatim>\<open>Path\<close>
  are byte strings. \<^verbatim>\<open>Q_ASSERT\<close> is modelled as it behaves in a debug build of Qt:
  a failed assertion ends the run, which is the value \<open>Inl\<close> of a result.
\<close>

subsection \<open>Cursor kinds (clang-c/Index.h)\<close>

text \<open>
  The values of the enumeration \<^verbatim>\<open>CXCursorKind\<close> in the header of libclang, which is
  not a file of the repository; the last reference and the last expression are those of
  libclang 3.0, the first release that calls a macro expansion by this name.
\<close>

type_synonym CXCursorKind = int
type_synonym u32 = "32 word"

definition CXCursor_FirstDecl :: CXCursorKind where "CXCursor_FirstDecl = 1"
definition CXCursor_StructDecl :: CXCursorKind where "CXCursor_StructDecl = 2"
definition CXCursor_ClassDecl :: CXCursorKind where "CXCursor_ClassDecl = 4"
definition CXCursor_FieldDecl :: CXCursorKind where "CXCursor_FieldDecl = 6"
definition CXCursor_FunctionDecl :: CXCursorKind where "CXCursor_FunctionDecl = 8"
definition CXCursor_VarDecl :: CXCursorKind where "CXCursor_VarDecl = 9"
definition CXCursor_CXXMethod :: CXCursorKind where "CXCursor_CXXMethod = 21"
definition CXCursor_Namespace :: CXCursorKind where "CXCursor_Namespace = 22"
definition CXCursor_Constructor :: CXCursorKind where "CXCursor_Constructor = 24"
definition CXCursor_Destructor :: CXCursorKind where "CXCursor_Destructor = 25"
definition CXCursor_LastDecl :: CXCursorKind where "CXCursor_LastDecl = 39"
definition CXCursor_FirstRef :: CXCursorKind where "CXCursor_FirstRef = 40"
definition CXCursor_TypeRef :: CXCursorKind where "CXCursor_TypeRef = 43"
definition CXCursor_LastRef :: CXCursorKind where "CXCursor_LastRef = 49"
definition CXCursor_FirstInvalid :: CXCursorKind where "CXCursor_FirstInvalid = 70"
definition CXCursor_InvalidFile :: CXCursorKind where "CXCursor_InvalidFile = 70"
definition CXCursor_LastInvalid :: CXCursorKind where "CXCursor_LastInvalid = 73"
definition CXCursor_FirstExpr :: CXCursorKind where "CXCursor_FirstExpr = 100"
definition CXCursor_DeclRefExpr :: CXCursorKind where "CXCursor_DeclRefExpr = 101"
definition CXCursor_CallExpr :: CXCursorKind where "CXCursor_CallExpr = 103"
definition CXCursor_LastExpr :: CXCursorKind where "CXCursor_LastExpr = 143"
definition CXCursor_MacroDefinition :: CXCursorKind where "CXCursor_MacroDefinition = 501"
definition CXCursor_MacroExpansion :: CXCursorKind where "CXCursor_MacroExpansion = 502"
definition CXCursor_InclusionDirective :: CXCursorKind where "CXCursor_InclusionDirective = 503"

text \<open>\<^verbatim>\<open>clang_isInvalid\<close>: the kinds between the first and the last invalid one.\<close>

definition clang_isInvalid :: "CXCursorKind \<Rightarrow> bool" where
  "clang_isInvalid k = (CXCursor_FirstInvalid \<le> k \<and> k \<le> CXCursor_LastInvalid)"

subsection \<open>Cursors of the front end\<close>

text \<open>
  A cursor carries what the accessors of libclang read off it: its kind, its
  instantiation location (file name, line, column, offset), its display name, whether
  the front end calls it a definition, and its semantic parent. The chain of semantic
  parents of a syntax tree is finite, so the parent is a component of the value;
  \<open>NullCursor\<close> is \<^verbatim>\<open>clang_getNullCursor()\<close>, whose kind is invalid.
\<close>

datatype CXCursor =
    NullCursor
  | Cursor CXCursorKind string u32 u32 u32 string bool CXCursor

fun clang_getCursorKind :: "CXCursor \<Rightarrow> CXCursorKind" where
  "clang_getCursorKind NullCursor = CXCursor_InvalidFile"
| "clang_getCursorKind (Cursor k f l c off n d p) = k"

fun clang_getFileName :: "CXCursor \<Rightarrow> string" where
  "clang_getFileName NullCursor = []"
| "clang_getFileName (Cursor k f l c off n d p) = f"

fun clang_getInstantiationLocation :: "CXCursor \<Rightarrow> u32 \<times> u32 \<times> u32" where
  "clang_getInstantiationLocation NullCursor = (0, 0, 0)"
| "clang_getInstantiationLocation (Cursor k f l c off n d p) = (l, c, off)"

fun clang_getCursorDisplayName :: "CXCursor \<Rightarrow> string" where
  "clang_getCursorDisplayName NullCursor = []"
| "clang_getCursorDisplayName (Cursor k f l c off n d p) = n"

fun clang_isCursorDefinition :: "CXCursor \<Rightarrow> bool" where
  "clang_isCursorDefinition NullCursor = False"
| "clang_isCursorDefinition (Cursor k f l c off n d p) = d"

fun clang_getCursorSemanticParent :: "CXCursor \<Rightarrow> CXCursor" where
  "clang_getCursorSemanticParent NullCursor = NullCursor"
| "clang_getCursorSemanticParent (Cursor k f l c off n d p) = p"

text \<open>
  A syntax tree is a cursor with its children. A parsed translation unit is the list of
  the children of its root cursor and the inclusions that \<^verbatim>\<open>clang_getInclusions\<close>
  reports: for every file of the unit its name and the names of the files of its
  inclusion stack, innermost first.
\<close>

datatype AST = AST CXCursor "AST list"

record CXTranslationUnit =
  unitChildren :: "AST list"
  inclusions :: "(string \<times> string list) list"

type_synonym time_t = int
type_synonym GccArguments = "string list"

text \<open>
  The queries whose answer is another cursor or a file, the parser, and the functions of
  \<^verbatim>\<open>Path\<close> and \<^verbatim>\<open>GccArguments\<close> (Path.h and GccArguments.h are not among the
  sources) are parameters of the model. \<open>clang_getIncludedFile\<close> is the name of the file
  that an inclusion directive includes. \<open>Slice_after\<close> is the memory behind a key that
  an iterator of the database yields (leveldb is not among the sources): the bytes that
  follow the bytes of the key, up to the first NUL.
\<close>

record Clang =
  clang_getCursorReferenced :: "CXCursor \<Rightarrow> CXCursor"
  clang_getCursorDefinition :: "CXCursor \<Rightarrow> CXCursor"
  clang_getIncludedFile :: "CXCursor \<Rightarrow> string"
  clang_parseTranslationUnit :: "string \<Rightarrow> GccArguments \<Rightarrow> CXTranslationUnit option"
  Path_resolved :: "string \<Rightarrow> string"
  Path_lastModified :: "string \<Rightarrow> time_t"
  GccArguments_input :: "GccArguments \<Rightarrow> string list"
  Slice_after :: "string \<Rightarrow> string"

subsection \<open>cursorDefinition, cursorDefinitionFor\<close>

definition cursorDefinition :: "CXCursor \<Rightarrow> bool" where
  "cursorDefinition c =
    (if clang_getCursorKind c = CXCursor_MacroDefinition then True
     else if clang_getCursorKind c = CXCursor_VarDecl then clang_isCursorDefinition c
     else clang_isCursorDefinition c)"

definition cursorDefinitionFor :: "CXCursor \<Rightarrow> CXCursor \<Rightarrow> bool" where
  "cursorDefinitionFor d c =
    (if clang_getCursorKind c = CXCursor_CallExpr then False else cursorDefinition d)"

subsection \<open>CursorKey\<close>

record CursorKey =
  kind :: CXCursorKind
  fileName :: string
  symbolName :: string
  line :: u32
  col :: u32
  off :: u32
  "def" :: bool

text \<open>The default constructor \<^verbatim>\<open>CursorKey()\<close>.\<close>

definition CursorKey_null :: CursorKey where
  "CursorKey_null =
    \<lparr> kind = CXCursor_FirstInvalid, fileName = [], symbolName = [],
      line = 0, col = 0, off = 0, def = False \<rparr>"

text \<open>The constructor \<^verbatim>\<open>CursorKey(const CXCursor &)\<close>.\<close>

definition CursorKey_of :: "Clang \<Rightarrow> CXCursor \<Rightarrow> CursorKey" where
  "CursorKey_of fe cursor =
    (let k = clang_getCursorKind cursor in
     if \<not> clang_isInvalid k then
       (case clang_getInstantiationLocation cursor of (l, c, ofs) \<Rightarrow>
          \<lparr> kind = k,
            fileName = Path_resolved fe (clang_getFileName cursor),
            symbolName = clang_getCursorDisplayName cursor,
            line = l, col = c, off = ofs,
            def = cursorDefinition cursor \<rparr>)
     else
       \<lparr> kind = k, fileName = [], symbolName = [],
         line = 0, col = 0, off = 0, def = False \<rparr>)"

definition isValid :: "CursorKey \<Rightarrow> bool" where
  "isValid key = (fileName key \<noteq> [] \<and> symbolName key \<noteq> [])"

definition isNull :: "CursorKey \<Rightarrow> bool" where
  "isNull key = (\<not> isValid key)"

definition isDefinition :: "CursorKey \<Rightarrow> bool" where
  "isDefinition key = def key"

text \<open>
  Modelled from the spec: \<^verbatim>\<open>AtomicString::strcmp\<close> (AtomicString.h is not among the
  sources), the byte-wise comparison of two names as C's \<^verbatim>\<open>strcmp\<close> makes it:
  negative, zero or positive.
\<close>

fun strcmp :: "string \<Rightarrow> string \<Rightarrow> int" where
  "strcmp [] [] = 0"
| "strcmp [] (y # ys) = - 1"
| "strcmp (x # xs) [] = 1"
| "strcmp (x # xs) (y # ys) =
     (if x = y then strcmp xs ys else int (of_char x) - int (of_char y))"

text \<open>\<^verbatim>\<open>CursorKey::operator<\<close>.\<close>

definition CursorKey_less :: "CursorKey \<Rightarrow> CursorKey \<Rightarrow> bool" where
  "CursorKey_less a other =
    (if \<not> isValid a then True
     else if \<not> isValid other then False
     else let ret = strcmp (fileName a) (fileName other) in
       if ret < 0 then True
       else if ret > 0 then False
       else if off a < off other then True
       else if off a > off other then False
       else let ret2 = strcmp (symbolName a) (symbolName other) in
         if ret2 < 0 then True
         else if ret2 > 0 then False
         else kind a < kind other)"

text \<open>\<^verbatim>\<open>CursorKey::operator==\<close> and \<^verbatim>\<open>operator!=\<close>.\<close>

definition CursorKey_eq :: "CursorKey \<Rightarrow> CursorKey \<Rightarrow> bool" where
  "CursorKey_eq a other =
    (if isNull a then isNull other
     else kind a = kind other \<and> off a = off other
        \<and> fileName a = fileName other \<and> symbolName a = symbolName other)"

definition CursorKey_neq :: "CursorKey \<Rightarrow> CursorKey \<Rightarrow> bool" where
  "CursorKey_neq a other = (\<not> CursorKey_eq a other)"

text \<open>\<^verbatim>\<open>QByteArray::number\<close> of an unsigned value: its decimal digits.\<close>

definition digit :: "nat \<Rightarrow> char" where
  "digit d = ''0123456789'' ! d"

fun number :: "nat \<Rightarrow> string" where
  "number n = (if n < 10 then [digit n] else number (n div 10) @ [digit (n mod 10)])"

declare number.simps [simp del]

definition locationKey :: "CursorKey \<Rightarrow> string" where
  "locationKey key = fileName key @ '':'' @ number (unat (off key))"

definition cursorKeyToString :: "CursorKey \<Rightarrow> string" where
  "cursorKeyToString key =
     fileName key @ '':'' @ number (unat (line key)) @ '':'' @ number (unat (col key))"

definition equalLocation :: "CursorKey \<Rightarrow> CursorKey \<Rightarrow> bool" where
  "equalLocation key1 key2 = (off key1 = off key2 \<and> fileName key1 = fileName key2)"

subsection \<open>CollectData\<close>

record Data =
  cursor :: CursorKey
  parentNames :: "string list"

record DataEntry =
  hasDefinition :: bool
  cursor :: Data
  reference :: Data
  references :: "string set"

text \<open>
  \<^verbatim>\<open>QHash<Path, time_t>\<close> is an association list with distinct keys, in the order in
  which the hash is iterated; \<open>h[p] = t\<close> is \<open>AList.update\<close>.
\<close>

record Dependencies =
  "file" :: string
  arguments :: GccArguments
  lastModified :: time_t
  dependencies :: "(string \<times> time_t) list"

text \<open>
  A \<^verbatim>\<open>DataEntry*\<close> is the index of the entry in \<open>data\<close>: every entry is allocated by
  \<^verbatim>\<open>collectSymbols\<close> and appended to \<open>data\<close> at once, and no entry is freed before
  the whole \<^verbatim>\<open>CollectData\<close> is. The null pointer is \<open>None\<close>.
\<close>

record CollectData =
  seen :: "string \<rightharpoonup> nat"
  data :: "DataEntry list"
  dependencies :: "Dependencies list"

definition Data_new :: Data where
  "Data_new = \<lparr> Data.cursor = CursorKey_null, parentNames = [] \<rparr>"

definition DataEntry_new :: DataEntry where
  "DataEntry_new =
    \<lparr> hasDefinition = False, DataEntry.cursor = Data_new, reference = Data_new,
      references = {} \<rparr>"

definition CollectData_new :: CollectData where
  "CollectData_new = \<lparr> seen = Map.empty, data = [], CollectData.dependencies = [] \<rparr>"

datatype error = AssertionFailed

subsection \<open>addCursor\<close>

text \<open>
  The loop of \<^verbatim>\<open>addCursor\<close> over the semantic parents (the parent \<open>p\<close> of a cursor
  is its \<open>clang_getCursorSemanticParent\<close>): it stops at the first parent whose key is
  not valid, and appends the name of every struct, class and namespace on the way. The
  assertion on the name of such a parent follows the test of its key.
\<close>

fun addCursor_parents :: "Clang \<Rightarrow> CXCursor \<Rightarrow> string list \<Rightarrow> error + string list" where
  "addCursor_parents fe NullCursor names = Inr names"
| "addCursor_parents fe (Cursor k f l c ofs n d p) names =
    (let parentKey = CursorKey_of fe p in
     if \<not> isValid parentKey then Inr names
     else if kind parentKey = CXCursor_StructDecl \<or> kind parentKey = CXCursor_ClassDecl
             \<or> kind parentKey = CXCursor_Namespace
     then (if symbolName parentKey = [] then Inl AssertionFailed
           else addCursor_parents fe p (names @ [symbolName parentKey]))
     else addCursor_parents fe p names)"

definition addCursor :: "Clang \<Rightarrow> CXCursor \<Rightarrow> CursorKey \<Rightarrow> Data \<Rightarrow> error + Data" where
  "addCursor fe c key d =
    (if \<not> isValid key then Inl AssertionFailed
     else case addCursor_parents fe c (parentNames d) of
            Inl e \<Rightarrow> Inl e
          | Inr names \<Rightarrow> Inr \<lparr> Data.cursor = key, parentNames = names \<rparr>)"

subsection \<open>collectSymbols\<close>

datatype CXChildVisitResult = CXChildVisit_Break | CXChildVisit_Continue | CXChildVisit_Recurse

text \<open>The key of the included file that an inclusion directive refers to.\<close>

definition inclusionKey :: "Clang \<Rightarrow> CXCursor \<Rightarrow> CursorKey" where
  "inclusionKey fe c =
    CursorKey_null \<lparr> fileName := clang_getIncludedFile fe c,
                     symbolName := clang_getIncludedFile fe c,
                     line := 1, col := 1, off := 0 \<rparr>"

text \<open>
  The body of \<^verbatim>\<open>collectSymbols\<close> once the entry \<open>i\<close> of the location has been found
  or created.
\<close>

definition collectSymbols_entry ::
  "Clang \<Rightarrow> CXCursor \<Rightarrow> CursorKey \<Rightarrow> nat \<Rightarrow> CollectData
    \<Rightarrow> error + (CXChildVisitResult \<times> CollectData)" where
  "collectSymbols_entry fe c key i st =
    (let entry = data st ! i in
     if kind key = CXCursor_InclusionDirective then
       (case addCursor fe c key (DataEntry.cursor entry) of
          Inl e \<Rightarrow> Inl e
        | Inr cur \<Rightarrow>
          (case addCursor fe NullCursor (inclusionKey fe c) (reference entry) of
             Inl e \<Rightarrow> Inl e
           | Inr rf \<Rightarrow>
               Inr (CXChildVisit_Continue,
                    st \<lparr> data := (data st)
                      [i := entry \<lparr> DataEntry.cursor := cur, reference := rf,
                                    hasDefinition := True \<rparr>] \<rparr>)))
     else
       let definition = clang_getCursorDefinition fe c in
       if \<not> cursorDefinition definition \<or> equalLocation key (CursorKey_of fe definition) then
         (if isNull (Data.cursor (reference entry))
             \<or> CursorKey_eq (Data.cursor (reference entry)) (Data.cursor (DataEntry.cursor entry))
          then
            let rc = clang_getCursorReferenced fe c; referenceKey = CursorKey_of fe rc in
            if isValid referenceKey then
              (case addCursor fe c key (DataEntry.cursor entry) of
                 Inl e \<Rightarrow> Inl e
               | Inr cur \<Rightarrow>
                 (case addCursor fe rc referenceKey (reference entry) of
                    Inl e \<Rightarrow> Inl e
                  | Inr rf \<Rightarrow>
                      Inr (CXChildVisit_Recurse,
                           st \<lparr> data := (data st)
                             [i := entry \<lparr> DataEntry.cursor := cur, reference := rf \<rparr>] \<rparr>)))
            else Inr (CXChildVisit_Recurse, st)
          else Inr (CXChildVisit_Recurse, st))
       else
         (let hasDef = (if cursorDefinitionFor definition c then True else hasDefinition entry) in
          case addCursor fe c key (DataEntry.cursor entry) of
            Inl e \<Rightarrow> Inl e
          | Inr cur \<Rightarrow>
            let definitionKey = CursorKey_of fe definition in
            if isValid definitionKey then
              (case addCursor fe definition definitionKey (reference entry) of
                 Inl e \<Rightarrow> Inl e
               | Inr rf \<Rightarrow>
                   Inr (CXChildVisit_Recurse,
                        st \<lparr> data := (data st)
                          [i := entry \<lparr> hasDefinition := hasDef, DataEntry.cursor := cur,
                                        reference := rf \<rparr>] \<rparr>))
            else
              Inr (CXChildVisit_Recurse,
                   st \<lparr> data := (data st)
                     [i := entry \<lparr> hasDefinition := hasDef, DataEntry.cursor := cur \<rparr>] \<rparr>)))"

definition collectSymbols ::
  "Clang \<Rightarrow> CXCursor \<Rightarrow> CollectData \<Rightarrow> error + (CXChildVisitResult \<times> CollectData)" where
  "collectSymbols fe c st =
    (let key = CursorKey_of fe c in
     if \<not> isValid key then Inr (CXChildVisit_Recurse, st)
     else case seen st (locationKey key) of
       Some i \<Rightarrow>
         if hasDefinition (data st ! i) then Inr (CXChildVisit_Recurse, st)
         else collectSymbols_entry fe c key i st
     | None \<Rightarrow>
         collectSymbols_entry fe c key (length (data st))
           (st \<lparr> seen := (seen st)(locationKey key \<mapsto> length (data st)),
                 data := data st @ [DataEntry_new] \<rparr>))"

subsection \<open>clang_visitChildren with the visitor collectSymbols\<close>

text \<open>
  The children are visited in order; the visitor's answer decides whether the children
  of a child are visited (\<open>CXChildVisit_Recurse\<close>), skipped (\<open>CXChildVisit_Continue\<close>)
  or the whole traversal ends (\<open>CXChildVisit_Break\<close>, the result \<open>True\<close>).
\<close>

fun visitChildren :: "Clang \<Rightarrow> AST list \<Rightarrow> CollectData \<Rightarrow> error + (bool \<times> CollectData)"
  and visitChild :: "Clang \<Rightarrow> AST \<Rightarrow> CollectData \<Rightarrow> error + (bool \<times> CollectData)" where
  "visitChildren fe [] st = Inr (False, st)"
| "visitChildren fe (t # ts) st =
    (case visitChild fe t st of
       Inl e \<Rightarrow> Inl e
     | Inr (broke, st') \<Rightarrow> if broke then Inr (True, st') else visitChildren fe ts st')"
| "visitChild fe (AST c cs) st =
    (case collectSymbols fe c st of
       Inl e \<Rightarrow> Inl e
     | Inr (CXChildVisit_Break, st') \<Rightarrow> Inr (True, st')
     | Inr (CXChildVisit_Continue, st') \<Rightarrow> Inr (False, st')
     | Inr (CXChildVisit_Recurse, st') \<Rightarrow> visitChildren fe cs st')"

subsection \<open>getInclusions and RBuild::compile\<close>

text \<open>
  \<open>deps->dependencies[p] = p.lastModified()\<close> for the resolved path \<open>p\<close> of a file. The
  inclusion stack is the list of the files of its locations.
\<close>

definition setDependency :: "Clang \<Rightarrow> string \<Rightarrow> Dependencies \<Rightarrow> Dependencies" where
  "setDependency fe f deps =
    (let p = Path_resolved fe f in
     deps \<lparr> Dependencies.dependencies :=
       AList.update p (Path_lastModified fe p) (Dependencies.dependencies deps) \<rparr>)"

definition getInclusions :: "Clang \<Rightarrow> string \<Rightarrow> string list \<Rightarrow> Dependencies \<Rightarrow> Dependencies" where
  "getInclusions fe includedFile inclusionStack deps =
    (let includeLen = length inclusionStack in
     if includeLen \<noteq> 0 then
       fold (setDependency fe) (take (includeLen - 1) inclusionStack)
         (setDependency fe includedFile deps)
     else deps)"

text \<open>
  One input file of \<^verbatim>\<open>RBuild::compile\<close>: a file that does not parse is skipped; the
  inclusion walker works on the record appended last.
\<close>

definition compile_input ::
  "Clang \<Rightarrow> GccArguments \<Rightarrow> string \<Rightarrow> CollectData \<Rightarrow> error + CollectData" where
  "compile_input fe args inp st =
    (case clang_parseTranslationUnit fe inp args of
       None \<Rightarrow> Inr st
     | Some unit \<Rightarrow>
        (case visitChildren fe (unitChildren unit) st of
           Inl e \<Rightarrow> Inl e
         | Inr (broke, st') \<Rightarrow>
            let deps = \<lparr> file = inp, arguments = args,
                         lastModified = Path_lastModified fe inp,
                         Dependencies.dependencies = [] \<rparr>
            in Inr (st' \<lparr> CollectData.dependencies := CollectData.dependencies st' @
                 [fold (\<lambda>(f, stack). getInclusions fe f stack) (inclusions unit) deps] \<rparr>)))"

fun compile_inputs ::
  "Clang \<Rightarrow> GccArguments \<Rightarrow> string list \<Rightarrow> CollectData \<Rightarrow> error + CollectData" where
  "compile_inputs fe args [] st = Inr st"
| "compile_inputs fe args (inp # inps) st =
    (case compile_input fe args inp st of
       Inl e \<Rightarrow> Inl e
     | Inr st' \<Rightarrow> compile_inputs fe args inps st')"

definition compile :: "Clang \<Rightarrow> GccArguments \<Rightarrow> CollectData \<Rightarrow> error + CollectData" where
  "compile fe args st = compile_inputs fe args (GccArguments_input fe args) st"

text \<open>The parser's signal \<^verbatim>\<open>fileReady\<close> for every item of the makefile, in turn.\<close>

fun makefileFileReady_all ::
  "Clang \<Rightarrow> GccArguments list \<Rightarrow> CollectData \<Rightarrow> error + CollectData" where
  "makefileFileReady_all fe [] st = Inr st"
| "makefileFileReady_all fe (args # rest) st =
    (case compile fe args st of
       Inl e \<Rightarrow> Inl e
     | Inr st' \<Rightarrow> makefileFileReady_all fe rest st')"

subsection \<open>The database and QDataStream\<close>

text \<open>
  What \<^verbatim>\<open>QDataStream\<close> writes is a list of items. A container is written as its size
  and its elements in the order of its iteration, which Qt does not specify for
  \<^verbatim>\<open>QSet\<close>; a serialized set is one item that holds the set. The value of a
  dictionary record is the list of the locations of a set, each ended by a NUL byte,
  again in the order of the set.
\<close>

datatype ds_item =
    DS_bool bool
  | DS_int int
  | DS_uint u32
  | DS_time time_t
  | DS_bytes string
  | DS_names "string list"
  | DS_set "string set"
  | DS_args GccArguments
  | DS_deps "(string \<times> time_t) list"

datatype db_value = Serialized "ds_item list" | Locations "string set"

type_synonym db = "string \<rightharpoonup> db_value"

text \<open>\<^verbatim>\<open>QHash<AtomicString, QSet<AtomicString> >\<close>, in the order of its iteration.\<close>

type_synonym dict = "(string \<times> string set) list"

definition ds_CursorKey :: "CursorKey \<Rightarrow> ds_item list" where
  "ds_CursorKey key =
    [DS_int (kind key), DS_bytes (fileName key), DS_bytes (symbolName key),
     DS_uint (line key), DS_uint (col key), DS_uint (off key), DS_bool (def key)]"

definition ds_Data :: "Data \<Rightarrow> ds_item list" where
  "ds_Data d = ds_CursorKey (Data.cursor d) @ [DS_names (parentNames d)]"

definition ds_DataEntry :: "DataEntry \<Rightarrow> ds_item list" where
  "ds_DataEntry entry =
    DS_bool (hasDefinition entry) # ds_Data (DataEntry.cursor entry)
      @ [DS_set (references entry), DS_set (references entry)]"

definition writeDependencies ::
  "db \<Rightarrow> string \<Rightarrow> GccArguments \<Rightarrow> time_t \<Rightarrow> (string \<times> time_t) list \<Rightarrow> db" where
  "writeDependencies d path args lastMod deps =
    d(''f:'' @ path \<mapsto> Serialized [DS_args args, DS_time lastMod, DS_deps deps])"

definition makeRefValue :: "DataEntry \<Rightarrow> ds_item list" where
  "makeRefValue entry =
    [DS_bytes (cursorKeyToString (Data.cursor (reference entry))), DS_set (references entry)]"

definition writeDict :: "db \<Rightarrow> dict \<Rightarrow> db" where
  "writeDict d dct = fold (\<lambda>(k, locs) d'. d'(''d:'' @ k \<mapsto> Locations locs)) dct d"

subsection \<open>collectDict\<close>

text \<open>\<open>dict[name].insert(location)\<close>: a name that is not a key yet gets the empty set first.\<close>

definition dict_insert :: "string \<Rightarrow> string \<Rightarrow> dict \<Rightarrow> dict" where
  "dict_insert name location dct =
    AList.update name
      (insert location (case map_of dct name of None \<Rightarrow> {} | Some locs \<Rightarrow> locs)) dct"

text \<open>\<^verbatim>\<open>QByteArray::indexOf\<close> of a character: the first position, or -1.\<close>

definition indexOf :: "string \<Rightarrow> char \<Rightarrow> int" where
  "indexOf s ch =
    (if ch \<in> set s then int (length (takeWhile (\<lambda>x. x \<noteq> ch) s)) else - 1)"

text \<open>\<^verbatim>\<open>QByteArray::left\<close>.\<close>

definition left :: "int \<Rightarrow> string \<Rightarrow> string" where
  "left n s = take (nat n) s"

text \<open>The loop over the names of the enclosing containers.\<close>

fun collectDict_parents :: "string list \<Rightarrow> string \<Rightarrow> int \<Rightarrow> string \<Rightarrow> dict \<Rightarrow> dict" where
  "collectDict_parents [] name colon location dct = dct"
| "collectDict_parents (cur # parents) name colon location dct =
    (let old = int (length name);
         name' = cur @ ''::'' @ name;
         colon' = (if colon \<noteq> - 1 then colon + (int (length name') - old) else colon);
         dct' = (if colon \<noteq> - 1 then dict_insert (left colon' name') location dct else dct)
     in collectDict_parents parents name' colon' location (dict_insert name' location dct'))"

text \<open>One round of the loop of \<^verbatim>\<open>collectDict\<close> over the two sides of an entry.\<close>

definition collectDict_side :: "Data \<Rightarrow> dict \<Rightarrow> dict" where
  "collectDict_side d dct =
    (let key = Data.cursor d in
     if \<not> isValid key then dct
     else if (CXCursor_FirstRef \<le> kind key \<and> kind key \<le> CXCursor_LastRef)
           \<or> (CXCursor_FirstExpr \<le> kind key \<and> kind key \<le> CXCursor_LastExpr) then dct
     else
       let name = symbolName key;
           location = cursorKeyToString key;
           dct1 = dict_insert name location dct;
           colon = indexOf name CHR ''('';
           dct2 = (if colon \<noteq> - 1 then dict_insert (left colon name) location dct1 else dct1)
       in if kind key = CXCursor_Namespace \<or> kind key = CXCursor_ClassDecl
             \<or> kind key = CXCursor_StructDecl \<or> kind key = CXCursor_FieldDecl
             \<or> kind key = CXCursor_CXXMethod \<or> kind key = CXCursor_Constructor
             \<or> kind key = CXCursor_Destructor
          then collectDict_parents (parentNames d) name colon location dct2
          else dct2)"

definition collectDict :: "DataEntry \<Rightarrow> dict \<Rightarrow> dict" where
  "collectDict entry dct =
    collectDict_side (reference entry) (collectDict_side (DataEntry.cursor entry) dct)"

subsection \<open>writeEntry and RBuild::writeData\<close>

definition writeEntry :: "db \<Rightarrow> DataEntry \<Rightarrow> db" where
  "writeEntry d entry =
    (let key = Data.cursor (DataEntry.cursor entry) in
     if \<not> isValid key then d
     else d(cursorKeyToString key \<mapsto> Serialized (makeRefValue entry)))"

text \<open>
  One round of the first loop of \<^verbatim>\<open>writeData\<close>, for the entry with index \<open>i\<close>. The
  lookup \<^verbatim>\<open>seen.value(k)\<close> is the null pointer for a key that is not there;
  \<^verbatim>\<open>Q_ASSERT(def && def != entry)\<close> ends the run.
\<close>

definition writeData_reference :: "nat \<Rightarrow> CollectData \<Rightarrow> error + CollectData" where
  "writeData_reference i st =
    (let entry = data st ! i;
         key = Data.cursor (DataEntry.cursor entry);
         ref = Data.cursor (reference entry)
     in if kind key = CXCursor_CXXMethod \<or> kind key = CXCursor_Constructor
           \<or> kind key = CXCursor_Destructor then
          (if CursorKey_neq key ref \<and> \<not> isDefinition key then
             (case seen st (locationKey ref) of
                None \<Rightarrow> Inl AssertionFailed
              | Some dfn \<Rightarrow>
                  if dfn = i then Inl AssertionFailed
                  else Inr (st \<lparr> data := (data st)
                         [dfn := (data st ! dfn) \<lparr> reference := DataEntry.cursor entry \<rparr>] \<rparr>))
           else Inr st)
        else
          (case seen st (locationKey (Data.cursor (reference entry))) of
             None \<Rightarrow> Inr st
           | Some r \<Rightarrow>
               if r = i then Inr st
               else Inr (st \<lparr> data := (data st)
                      [r := (data st ! r) \<lparr> references :=
                         insert (cursorKeyToString (Data.cursor (DataEntry.cursor entry)))
                           (references (data st ! r)) \<rparr>] \<rparr>)))"

fun writeData_references :: "nat list \<Rightarrow> CollectData \<Rightarrow> error + CollectData" where
  "writeData_references [] st = Inr st"
| "writeData_references (i # is) st =
    (case writeData_reference i st of
       Inl e \<Rightarrow> Inl e
     | Inr st' \<Rightarrow> writeData_references is st')"

text \<open>The second loop: the record of every entry, the dictionary and the manifest.\<close>

fun writeData_entries ::
  "DataEntry list \<Rightarrow> db \<times> dict \<times> ds_item list \<Rightarrow> db \<times> dict \<times> ds_item list" where
  "writeData_entries [] acc = acc"
| "writeData_entries (entry # entries) (d, dct, ds) =
    writeData_entries entries (writeEntry d entry, collectDict entry dct, ds @ ds_DataEntry entry)"

text \<open>
  \<^verbatim>\<open>RBuild::writeData\<close> (\<open>mData\<close> is never null). The directory of the database is
  removed first, so the database that opens is empty; when it does not open nothing is
  done. The result is the store after the first loop and the database that was written.
\<close>

definition writeData :: "bool \<Rightarrow> CollectData \<Rightarrow> error + (CollectData \<times> db option)" where
  "writeData opens st =
    (if \<not> opens then Inr (st, None)
     else case writeData_references [0 ..< length (data st)] st of
       Inl e \<Rightarrow> Inl e
     | Inr st' \<Rightarrow>
        (case writeData_entries (data st')
                (Map.empty, [], [DS_int (int (length (data st')))]) of
           (d, dct, entries) \<Rightarrow>
             let d1 = writeDict d dct;
                 d2 = fold (\<lambda>dep d'. writeDependencies d' (file dep) (arguments dep)
                              (lastModified dep) (Dependencies.dependencies dep))
                        (CollectData.dependencies st') d1
             in Inr (st', Some (d2('' '' \<mapsto> Serialized entries)))))"

subsection \<open>RBuild::updateDB\<close>

text \<open>
  The database that is read is the list of its records in the order of their keys, as
  an iterator yields them. \<^verbatim>\<open>Seek\<close> skips the keys below its argument; a value that
  \<^verbatim>\<open>writeDependencies\<close> did not write reads as empty values.
\<close>

definition Seek :: "string \<Rightarrow> (string \<times> db_value) list \<Rightarrow> (string \<times> db_value) list" where
  "Seek k records = dropWhile (\<lambda>(key, v). strcmp key k < 0) records"

definition readDependencies :: "db_value \<Rightarrow> GccArguments \<times> time_t \<times> (string \<times> time_t) list" where
  "readDependencies v =
    (case v of
       Serialized [DS_args args, DS_time lastMod, DS_deps deps] \<Rightarrow> (args, lastMod, deps)
     | _ \<Rightarrow> ([], 0, []))"

text \<open>The inner loop over the included files of one record.\<close>

fun updateDB_included ::
  "Clang \<Rightarrow> (string \<times> time_t) list \<Rightarrow> (string \<rightharpoonup> GccArguments) \<Rightarrow> (string \<rightharpoonup> GccArguments)" where
  "updateDB_included fe [] dirty = dirty"
| "updateDB_included fe ((k, v) # rest) dirty =
    updateDB_included fe rest
      (if dirty k = None \<and> Path_lastModified fe k \<noteq> v then dirty(k \<mapsto> []) else dirty)"

text \<open>
  A \<^verbatim>\<open>Slice\<close> of leveldb is a pointer and a size; nothing ends its bytes. The scan
  reads the key through its pointer as a C string, in \<^verbatim>\<open>strncmp(key.data(), "f:", 2)\<close>
  and in \<^verbatim>\<open>Path(key.data() + 2)\<close>, and never looks at the size. \<open>Slice_data\<close> is the
  memory at \<^verbatim>\<open>key.data()\<close>: the bytes of the key and the bytes behind them; \<open>c_str\<close>
  is the C string at the start of some bytes, which ends before the first NUL.
\<close>

definition Slice_data :: "Clang \<Rightarrow> string \<Rightarrow> string" where
  "Slice_data fe key = key @ Slice_after fe key"

definition c_str :: "string \<Rightarrow> string" where
  "c_str s = takeWhile (\<lambda>c. c \<noteq> CHR 0x00) s"

text \<open>
  The record \<open>dep\<close> that the loop builds from a key and its value: its file is the C
  string two bytes behind the pointer of the key (\<^verbatim>\<open>Path\<close> of a \<^verbatim>\<open>const char *\<close> is
  taken as \<^verbatim>\<open>QByteArray\<close> of it, the bytes before the first NUL).
\<close>

definition updateDB_record :: "Clang \<Rightarrow> string \<Rightarrow> db_value \<Rightarrow> Dependencies" where
  "updateDB_record fe key v =
    (case readDependencies v of (args, lastMod, included) \<Rightarrow>
       \<lparr> file = c_str (drop 2 (Slice_data fe key)), arguments = args, lastModified = lastMod,
         Dependencies.dependencies = included \<rparr>)"

text \<open>
  The loop over the records from \<^verbatim>\<open>Seek("f:")\<close> on; it ends at the first key whose
  memory does not begin with \<^verbatim>\<open>f:\<close> (\<^verbatim>\<open>strncmp\<close> compares two bytes, and stops
  early only at a NUL, which is not equal to a byte of \<^verbatim>\<open>f:\<close> either).
\<close>

fun updateDB_scan ::
  "Clang \<Rightarrow> (string \<times> db_value) list \<Rightarrow> (string \<rightharpoonup> GccArguments) \<times> Dependencies list
    \<Rightarrow> (string \<rightharpoonup> GccArguments) \<times> Dependencies list" where
  "updateDB_scan fe [] acc = acc"
| "updateDB_scan fe ((key, v) # rest) (dirty, deps) =
    (if take 2 (Slice_data fe key) \<noteq> ''f:'' then (dirty, deps)
     else
       let dep = updateDB_record fe key v;
           dirty1 = (if lastModified dep \<noteq> Path_lastModified fe (file dep)
                     then dirty(file dep \<mapsto> arguments dep) else dirty)
       in updateDB_scan fe rest
            (updateDB_included fe (Dependencies.dependencies dep) dirty1, deps @ [dep]))"

text \<open>
  \<^verbatim>\<open>RBuild::updateDB\<close>: the result, the store, and the local \<open>dirty\<close> as the scan
  leaves it. \<open>None\<close> is a database that does not open.
\<close>

definition updateDB ::
  "Clang \<Rightarrow> (string \<times> db_value) list option \<Rightarrow> CollectData
    \<Rightarrow> bool \<times> CollectData \<times> (string \<rightharpoonup> GccArguments)" where
  "updateDB fe dbo st =
    (case dbo of
       None \<Rightarrow> (False, st, Map.empty)
     | Some records \<Rightarrow>
        (case updateDB_scan fe (Seek ''f:'' records) (Map.empty, CollectData.dependencies st) of
           (dirty, deps) \<Rightarrow>
             let st1 = st \<lparr> CollectData.dependencies := deps \<rparr> in
             (case map_of records '' '' of
                None \<Rightarrow> (False, st1, dirty)
              | Some v \<Rightarrow>
                  let count = (case v of Serialized (DS_int n # _) \<Rightarrow> n | _ \<Rightarrow> 0)
                  in (True, st1 \<lparr> data := data st1 @ replicate (nat count) DataEntry_new \<rparr>,
                      dirty))))"

subsection \<open>Invariants of the store\<close>

text \<open>The key of the cursor and of the reference of an entry.\<close>

abbreviation entry_key :: "DataEntry \<Rightarrow> CursorKey" where
  "entry_key e \<equiv> Data.cursor (DataEntry.cursor e)"

abbreviation entry_ref :: "DataEntry \<Rightarrow> CursorKey" where
  "entry_ref e \<equiv> Data.cursor (reference e)"

text \<open>
  What holds of the store while the files are indexed: every pointer in \<open>seen\<close> is an
  entry of \<open>data\<close>; no entry is registered under the location of the null key; an entry
  whose cursor key is valid is registered under the location of that key, and the other
  entries have the null key as cursor and as reference; no entry has a back-reference.
\<close>

definition store_invariant :: "CollectData \<Rightarrow> bool" where
  "store_invariant st \<longleftrightarrow>
     (\<forall>k i. seen st k = Some i \<longrightarrow> i < length (data st))
   \<and> seen st (locationKey CursorKey_null) = None
   \<and> (\<forall>i < length (data st).
        if isValid (entry_key (data st ! i))
        then seen st (locationKey (entry_key (data st ! i))) = Some i
        else entry_key (data st ! i) = CursorKey_null
           \<and> entry_ref (data st ! i) = CursorKey_null)
   \<and> (\<forall>i < length (data st). references (data st ! i) = {})"

text \<open>
  The front end derives line, column and offset from one location: cursor keys of the
  store with the same file, line and column have the same offset.
\<close>

definition locations_consistent :: "CollectData \<Rightarrow> bool" where
  "locations_consistent st \<longleftrightarrow>
     (\<forall>e1 \<in> set (data st). \<forall>e2 \<in> set (data st).
        fileName (entry_key e1) = fileName (entry_key e2)
        \<and> line (entry_key e1) = line (entry_key e2)
        \<and> col (entry_key e1) = col (entry_key e2)
        \<longrightarrow> off (entry_key e1) = off (entry_key e2))"

text \<open>
  What holds during the back-reference pass: as before, but the reference of an entry
  without a valid cursor key may have become the cursor key of another entry, and the
  location string of an entry is not among its own back-references.
\<close>

definition pass_invariant :: "CollectData \<Rightarrow> bool" where
  "pass_invariant st \<longleftrightarrow>
     (\<forall>k i. seen st k = Some i \<longrightarrow> i < length (data st))
   \<and> seen st (locationKey CursorKey_null) = None
   \<and> (\<forall>i < length (data st).
        if isValid (entry_key (data st ! i))
        then seen st (locationKey (entry_key (data st ! i))) = Some i
        else entry_key (data st ! i) = CursorKey_null
           \<and> (entry_ref (data st ! i) = CursorKey_null
              \<or> (\<exists>m < length (data st). isValid (entry_key (data st ! m))
                    \<and> entry_ref (data st ! i) = entry_key (data st ! m))))
   \<and> locations_consistent st
   \<and> (\<forall>i < length (data st).
        cursorKeyToString (entry_key (data st ! i)) \<notin> references (data st ! i))"

subsection \<open>Concrete inputs for the examples\<close>

definition clang0 :: Clang where
  "clang0 =
    \<lparr> clang_getCursorReferenced = (\<lambda>c. c),
      clang_getCursorDefinition = (\<lambda>c. c),
      clang_getIncludedFile = (\<lambda>c. []),
      clang_parseTranslationUnit = (\<lambda>f a. None),
      Path_resolved = (\<lambda>p. p),
      Path_lastModified = (\<lambda>p. 0),
      GccArguments_input = (\<lambda>a. a),
      Slice_after = (\<lambda>k. []) \<rparr>"

text \<open>A file system where \<^verbatim>\<open>a.h\<close> was modified at time 2 and every other file at time 1.\<close>

definition clang_touched :: Clang where
  "clang_touched = clang0 \<lparr> Path_lastModified := (\<lambda>p. if p = ''a.h'' then 2 else 1) \<rparr>"

text \<open>
  Two translation units: \<^verbatim>\<open>a.cpp\<close> includes \<^verbatim>\<open>a.h\<close>, which includes \<^verbatim>\<open>b.h\<close>;
  \<^verbatim>\<open>self.cpp\<close> includes \<^verbatim>\<open>a.h\<close>, which includes \<^verbatim>\<open>self.cpp\<close> again.
\<close>

definition clang_includes :: Clang where
  "clang_includes = clang0 \<lparr> clang_parseTranslationUnit := (\<lambda>f a.
     if f = ''a.cpp'' then
       Some \<lparr> unitChildren = [],
              inclusions = [(''a.cpp'', []), (''a.h'', [''a.cpp'']),
                            (''b.h'', [''a.h'', ''a.cpp''])] \<rparr>
     else if f = ''self.cpp'' then
       Some \<lparr> unitChildren = [],
              inclusions = [(''self.cpp'', []), (''a.h'', [''self.cpp'']),
                            (''self.cpp'', [''a.h'', ''self.cpp''])] \<rparr>
     else None) \<rparr>"

text \<open>A front end that finds no referenced cursor and no definition for any cursor.\<close>

definition clang_none :: Clang where
  "clang_none = clang0 \<lparr> clang_getCursorReferenced := (\<lambda>c. NullCursor),
                          clang_getCursorDefinition := (\<lambda>c. NullCursor) \<rparr>"

text \<open>
  The declaration of a method \<^verbatim>\<open>bar(int)\<close> in the class \<^verbatim>\<open>Foo\<close> of \<^verbatim>\<open>a.h\<close>, its
  definition in \<^verbatim>\<open>a.cpp\<close>, a front end that gives this definition for every cursor,
  and the store after a visit of the declaration alone.
\<close>

definition method_decl :: CXCursor where
  "method_decl = Cursor CXCursor_CXXMethod ''a.h'' 3 8 30 ''bar(int)'' False
     (Cursor CXCursor_ClassDecl ''a.h'' 1 7 6 ''Foo'' True NullCursor)"

definition method_def :: CXCursor where
  "method_def = Cursor CXCursor_CXXMethod ''a.cpp'' 9 11 50 ''bar(int)'' True
     (Cursor CXCursor_ClassDecl ''a.h'' 1 7 6 ''Foo'' True NullCursor)"

definition clang_method :: Clang where
  "clang_method = clang0 \<lparr> clang_getCursorDefinition := (\<lambda>c. method_def) \<rparr>"

definition store_decl_only :: CollectData where
  "store_decl_only =
    \<lparr> seen = [''a.h:30'' \<mapsto> 0],
      data = [\<lparr> hasDefinition = True,
                DataEntry.cursor = \<lparr> Data.cursor =
                    \<lparr> kind = CXCursor_CXXMethod, fileName = ''a.h'', symbolName = ''bar(int)'',
                      line = 3, col = 8, off = 30, def = False \<rparr>,
                  parentNames = [''Foo''] \<rparr>,
                reference = \<lparr> Data.cursor =
                    \<lparr> kind = CXCursor_CXXMethod, fileName = ''a.cpp'', symbolName = ''bar(int)'',
                      line = 9, col = 11, off = 50, def = True \<rparr>,
                  parentNames = [''Foo''] \<rparr>,
                references = {} \<rparr>],
      CollectData.dependencies = [] \<rparr>"

text \<open>The store after a visit of the definition of the method alone.\<close>

definition store_method :: CollectData where
  "store_method =
    \<lparr> seen = [''a.cpp:50'' \<mapsto> 0],
      data = [\<lparr> hasDefinition = False,
                DataEntry.cursor = \<lparr> Data.cursor =
                    \<lparr> kind = CXCursor_CXXMethod, fileName = ''a.cpp'', symbolName = ''bar(int)'',
                      line = 9, col = 11, off = 50, def = True \<rparr>,
                  parentNames = [''Foo''] \<rparr>,
                reference = \<lparr> Data.cursor =
                    \<lparr> kind = CXCursor_CXXMethod, fileName = ''a.cpp'', symbolName = ''bar(int)'',
                      line = 9, col = 11, off = 50, def = True \<rparr>,
                  parentNames = [''Foo''] \<rparr>,
                references = {} \<rparr>],
      CollectData.dependencies = [] \<rparr>"

text \<open>
  A unit \<^verbatim>\<open>a.cpp\<close> with the definition of a function \<^verbatim>\<open>f()\<close> and a reference to it,
  the store after indexing the unit, and the store after the back-reference pass.
\<close>

definition f_decl :: CXCursor where
  "f_decl = Cursor CXCursor_FunctionDecl ''a.cpp'' 1 6 5 ''f()'' True NullCursor"

definition f_ref :: CXCursor where
  "f_ref = Cursor CXCursor_DeclRefExpr ''a.cpp'' 3 3 30 ''f'' False NullCursor"

definition clang_unit :: Clang where
  "clang_unit = clang0 \<lparr>
     clang_getCursorReferenced := (\<lambda>c. f_decl),
     clang_getCursorDefinition := (\<lambda>c. f_decl),
     clang_parseTranslationUnit := (\<lambda>f a.
       if f = ''a.cpp'' then
         Some \<lparr> unitChildren = [AST f_decl [], AST f_ref []],
                inclusions = [(''a.cpp'', [])] \<rparr>
       else None) \<rparr>"

definition store_indexed :: CollectData where
  "store_indexed =
    \<lparr> seen = [''a.cpp:5'' \<mapsto> 0, ''a.cpp:30'' \<mapsto> 1],
      data =
        [\<lparr> hasDefinition = False,
           DataEntry.cursor = \<lparr> Data.cursor =
               \<lparr> kind = CXCursor_FunctionDecl, fileName = ''a.cpp'', symbolName = ''f()'',
                 line = 1, col = 6, off = 5, def = True \<rparr>,
             parentNames = [] \<rparr>,
           reference = \<lparr> Data.cursor =
               \<lparr> kind = CXCursor_FunctionDecl, fileName = ''a.cpp'', symbolName = ''f()'',
                 line = 1, col = 6, off = 5, def = True \<rparr>,
             parentNames = [] \<rparr>,
           references = {} \<rparr>,
         \<lparr> hasDefinition = True,
           DataEntry.cursor = \<lparr> Data.cursor =
               \<lparr> kind = CXCursor_DeclRefExpr, fileName = ''a.cpp'', symbolName = ''f'',
                 line = 3, col = 3, off = 30, def = False \<rparr>,
             parentNames = [] \<rparr>,
           reference = \<lparr> Data.cursor =
               \<lparr> kind = CXCursor_FunctionDecl, fileName = ''a.cpp'', symbolName = ''f()'',
                 line = 1, col = 6, off = 5, def = True \<rparr>,
             parentNames = [] \<rparr>,
           references = {} \<rparr>],
      CollectData.dependencies =
        [\<lparr> file = ''a.cpp'', arguments = [''a.cpp''], lastModified = 0,
           Dependencies.dependencies = [] \<rparr>] \<rparr>"

definition store_written :: CollectData where
  "store_written =
     store_indexed \<lparr> data :=
       (data store_indexed) [0 := (data store_indexed ! 0) \<lparr> references := {''a.cpp:3:3''} \<rparr>] \<rparr>"

text \<open>
  Two cursors at one location of \<^verbatim>\<open>a.cpp\<close>: one that is not a definition, visited
  before the definition \<open>f_decl\<close>; the store after each of the two visits.
\<close>

definition f_forward :: CXCursor where
  "f_forward = Cursor CXCursor_FunctionDecl ''a.cpp'' 1 6 5 ''f()'' False NullCursor"

definition store_forward :: CollectData where
  "store_forward =
    \<lparr> seen = [''a.cpp:5'' \<mapsto> 0],
      data = [\<lparr> hasDefinition = False,
                DataEntry.cursor = \<lparr> Data.cursor =
                    \<lparr> kind = CXCursor_FunctionDecl, fileName = ''a.cpp'', symbolName = ''f()'',
                      line = 1, col = 6, off = 5, def = False \<rparr>,
                  parentNames = [] \<rparr>,
                reference = \<lparr> Data.cursor =
                    \<lparr> kind = CXCursor_FunctionDecl, fileName = ''a.cpp'', symbolName = ''f()'',
                      line = 1, col = 6, off = 5, def = True \<rparr>,
                  parentNames = [] \<rparr>,
                references = {} \<rparr>],
      CollectData.dependencies = [] \<rparr>"

definition store_defined :: CollectData where
  "store_defined =
    \<lparr> seen = [''a.cpp:5'' \<mapsto> 0],
      data = [\<lparr> hasDefinition = False,
                DataEntry.cursor = \<lparr> Data.cursor =
                    \<lparr> kind = CXCursor_FunctionDecl, fileName = ''a.cpp'', symbolName = ''f()'',
                      line = 1, col = 6, off = 5, def = True \<rparr>,
                  parentNames = [] \<rparr>,
                reference = \<lparr> Data.cursor =
                    \<lparr> kind = CXCursor_FunctionDecl, fileName = ''a.cpp'', symbolName = ''f()'',
                      line = 1, col = 6, off = 5, def = True \<rparr>,
                  parentNames = [] \<rparr>,
                references = {} \<rparr>],
      CollectData.dependencies = [] \<rparr>"

text \<open>
  A cursor at the location of \<open>method_decl\<close> for which the front end \<open>clang_two\<close>
  finds no definition, and the store after its visit.
\<close>

definition method_seen :: CXCursor where
  "method_seen = Cursor CXCursor_CXXMethod ''a.h'' 3 8 30 ''bar(int)'' False NullCursor"

definition clang_two :: Clang where
  "clang_two = clang0 \<lparr> clang_getCursorDefinition :=
     (\<lambda>c. if c = method_decl then method_def else NullCursor) \<rparr>"

definition store_seen :: CollectData where
  "store_seen =
    \<lparr> seen = [''a.h:30'' \<mapsto> 0],
      data = [\<lparr> hasDefinition = False,
                DataEntry.cursor = \<lparr> Data.cursor =
                    \<lparr> kind = CXCursor_CXXMethod, fileName = ''a.h'', symbolName = ''bar(int)'',
                      line = 3, col = 8, off = 30, def = False \<rparr>,
                  parentNames = [] \<rparr>,
                reference = \<lparr> Data.cursor =
                    \<lparr> kind = CXCursor_CXXMethod, fileName = ''a.h'', symbolName = ''bar(int)'',
                      line = 3, col = 8, off = 30, def = False \<rparr>,
                  parentNames = [] \<rparr>,
                references = {} \<rparr>],
      CollectData.dependencies = [] \<rparr>"

section \<open>Properties\<close>

subsection \<open>Cursor kinds\<close>

lemmas CXCursorKind_defs =
  CXCursor_FirstDecl_def CXCursor_StructDecl_def CXCursor_ClassDecl_def
  CXCursor_FieldDecl_def CXCursor_FunctionDecl_def CXCursor_VarDecl_def
  CXCursor_CXXMethod_def CXCursor_Namespace_def CXCursor_Constructor_def
  CXCursor_Destructor_def CXCursor_LastDecl_def CXCursor_FirstRef_def CXCursor_TypeRef_def
  CXCursor_LastRef_def CXCursor_FirstInvalid_def CXCursor_InvalidFile_def
  CXCursor_LastInvalid_def CXCursor_FirstExpr_def CXCursor_DeclRefExpr_def
  CXCursor_CallExpr_def CXCursor_LastExpr_def CXCursor_MacroDefinition_def
  CXCursor_MacroExpansion_def CXCursor_InclusionDirective_def

subsection \<open>Comparison of names\<close>

lemma strcmp_zero_iff: "strcmp a b = 0 \<longleftrightarrow> a = b"
  by (induction a b rule: strcmp.induct) auto

lemma strcmp_flip: "strcmp a b < 0 \<longleftrightarrow> 0 < strcmp b a"
  by (induction a b rule: strcmp.induct) auto

lemma strcmp_pos_flip: "0 < strcmp a b \<longleftrightarrow> strcmp b a < 0"
  by (simp add: strcmp_flip)

subsection \<open>Identity and ordering of cursor keys\<close>

lemma CursorKey_less_asym:
  assumes "isValid a" and "isValid b" and "CursorKey_less a b"
  shows "\<not> CursorKey_less b a"
proof -
  consider (f) "strcmp (fileName a) (fileName b) < 0"
    | (o) "fileName a = fileName b" "off a < off b"
    | (s) "fileName a = fileName b" "off a = off b"
          "strcmp (symbolName a) (symbolName b) < 0"
    | (k) "fileName a = fileName b" "off a = off b" "symbolName a = symbolName b"
          "kind a < kind b"
    using assms
    by (auto simp: CursorKey_less_def Let_def strcmp_zero_iff split: if_splits)
  then show ?thesis
  proof cases
    case f
    then have "0 < strcmp (fileName b) (fileName a)" by (simp add: strcmp_flip)
    with assms show ?thesis by (simp add: CursorKey_less_def Let_def)
  next
    case o
    then have "strcmp (fileName b) (fileName a) = 0" by (simp add: strcmp_zero_iff)
    with o assms show ?thesis by (auto simp: CursorKey_less_def Let_def)
  next
    case s
    then have "strcmp (fileName b) (fileName a) = 0"
      and "0 < strcmp (symbolName b) (symbolName a)"
      by (simp_all add: strcmp_zero_iff strcmp_flip)
    with s assms show ?thesis by (auto simp: CursorKey_less_def Let_def)
  next
    case k
    then have "strcmp (fileName b) (fileName a) = 0"
      and "strcmp (symbolName b) (symbolName a) = 0"
      by (simp_all add: strcmp_zero_iff)
    with k assms show ?thesis by (auto simp: CursorKey_less_def Let_def)
  qed
qed

text \<open>
  C3. For valid keys \<open>a\<close> and \<open>b\<close>, \<open>a < b\<close> and \<open>b < a\<close> never both hold, and
  \<open>a == b\<close> holds exactly when file name, offset, symbol name and kind all match;
  line and column have no influence on equality.
\<close>

theorem CursorKey_order_and_equality:
  assumes "isValid a" and "isValid b"
  shows "\<not> (CursorKey_less a b \<and> CursorKey_less b a)
    \<and> (CursorKey_eq a b \<longleftrightarrow>
         fileName a = fileName b \<and> off a = off b
         \<and> symbolName a = symbolName b \<and> kind a = kind b)
    \<and> (\<forall>l c l' c'. CursorKey_eq (a \<lparr> line := l, col := c \<rparr>) (b \<lparr> line := l', col := c' \<rparr>)
           = CursorKey_eq a b)"
proof -
  have "\<not> (CursorKey_less a b \<and> CursorKey_less b a)"
    using CursorKey_less_asym [OF assms] by blast
  moreover have "CursorKey_eq a b \<longleftrightarrow>
         fileName a = fileName b \<and> off a = off b
         \<and> symbolName a = symbolName b \<and> kind a = kind b"
    using assms by (auto simp: CursorKey_eq_def isNull_def)
  moreover have "\<forall>l c l' c'.
      CursorKey_eq (a \<lparr> line := l, col := c \<rparr>) (b \<lparr> line := l', col := c' \<rparr>)
        = CursorKey_eq a b"
    by (simp add: CursorKey_eq_def isNull_def isValid_def)
  ultimately show ?thesis by blast
qed

text \<open>An instance: two valid keys of \<^verbatim>\<open>f()\<close> in \<^verbatim>\<open>a.cpp\<close> at the offsets 5 and 20.\<close>

theorem CursorKey_order_and_equality_witness:
  "isValid \<lparr> kind = 8, fileName = ''a.cpp'', symbolName = ''f()'',
             line = 1, col = 6, off = 5, def = False \<rparr>
   \<and> isValid \<lparr> kind = 8, fileName = ''a.cpp'', symbolName = ''f()'',
               line = 3, col = 6, off = 20, def = True \<rparr>
   \<and> CursorKey_less
        \<lparr> kind = 8, fileName = ''a.cpp'', symbolName = ''f()'',
          line = 1, col = 6, off = 5, def = False \<rparr>
        \<lparr> kind = 8, fileName = ''a.cpp'', symbolName = ''f()'',
          line = 3, col = 6, off = 20, def = True \<rparr>
   \<and> \<not> CursorKey_less
        \<lparr> kind = 8, fileName = ''a.cpp'', symbolName = ''f()'',
          line = 3, col = 6, off = 20, def = True \<rparr>
        \<lparr> kind = 8, fileName = ''a.cpp'', symbolName = ''f()'',
          line = 1, col = 6, off = 5, def = False \<rparr>
   \<and> \<not> CursorKey_eq
        \<lparr> kind = 8, fileName = ''a.cpp'', symbolName = ''f()'',
          line = 1, col = 6, off = 5, def = False \<rparr>
        \<lparr> kind = 8, fileName = ''a.cpp'', symbolName = ''f()'',
          line = 3, col = 6, off = 20, def = True \<rparr>"
proof -
  let ?a = "\<lparr> kind = 8, fileName = ''a.cpp'', symbolName = ''f()'',
             line = 1, col = 6, off = 5, def = False \<rparr>"
  let ?b = "\<lparr> kind = 8, fileName = ''a.cpp'', symbolName = ''f()'',
             line = 3, col = 6, off = 20, def = True \<rparr>"
  have va: "isValid ?a" and vb: "isValid ?b" by (simp_all add: isValid_def)
  have lt: "CursorKey_less ?a ?b" by (simp add: CursorKey_less_def isValid_def)
  from CursorKey_order_and_equality [OF va vb] lt
  have "\<not> CursorKey_less ?b ?a" and "\<not> CursorKey_eq ?a ?b" by simp_all
  with va vb lt show ?thesis by simp
qed

subsection \<open>The definition flag of a key\<close>

text \<open>
  C5, as the code has it. The flag of a key built from a cursor is true exactly when
  the kind of the cursor is not an invalid one and the kind is a macro definition or
  the front end reports the cursor as a definition. A variable declaration is treated
  as every other kind: the line that would return false for it is commented out.
\<close>

theorem CursorKey_isDefinition:
  "isDefinition (CursorKey_of fe c) \<longleftrightarrow>
     \<not> clang_isInvalid (clang_getCursorKind c)
     \<and> (clang_getCursorKind c = CXCursor_MacroDefinition \<or> clang_isCursorDefinition c)"
  by (simp add: isDefinition_def CursorKey_of_def Let_def cursorDefinition_def
      split: prod.splits)

text \<open>An instance: the key of a macro definition.\<close>

theorem CursorKey_isDefinition_witness:
  "isDefinition (CursorKey_of clang0
      (Cursor CXCursor_MacroDefinition ''a.h'' 1 9 8 ''MAX'' False NullCursor))"
  using CursorKey_isDefinition [of "clang0"
      "Cursor CXCursor_MacroDefinition ''a.h'' 1 9 8 ''MAX'' False NullCursor"]
  by (simp add: clang0_def clang_isInvalid_def CXCursorKind_defs)

text \<open>
  C5, as the specification states it, fails: a variable declaration that the front end
  reports as a definition gets a key whose definition flag is true.
\<close>

theorem VarDecl_isDefinition_counterexample:
  "clang_getCursorKind (Cursor CXCursor_VarDecl ''a.cpp'' 1 5 4 ''x'' True NullCursor)
     = CXCursor_VarDecl
   \<and> isDefinition (CursorKey_of clang0
      (Cursor CXCursor_VarDecl ''a.cpp'' 1 5 4 ''x'' True NullCursor))"
  by (simp add: clang0_def isDefinition_def CursorKey_of_def Let_def cursorDefinition_def
      clang_isInvalid_def CXCursorKind_defs)

subsection \<open>Evaluation of concrete inputs\<close>

lemmas eval_key =
  CursorKey_of_def Let_def clang_isInvalid_def CXCursorKind_defs isValid_def isNull_def
  locationKey_def cursorKeyToString_def number.simps digit_def cursorDefinition_def
  cursorDefinitionFor_def equalLocation_def CursorKey_eq_def CursorKey_neq_def
  CursorKey_null_def isDefinition_def

lemmas eval_visit =
  collectSymbols_def collectSymbols_entry_def addCursor_def inclusionKey_def
  DataEntry_new_def Data_new_def CollectData_new_def

lemmas eval_write =
  writeData_def writeData_reference_def writeEntry_def collectDict_def collectDict_side_def
  writeDict_def writeDependencies_def makeRefValue_def ds_DataEntry_def ds_Data_def
  ds_CursorKey_def dict_insert_def indexOf_def left_def

lemmas eval_db =
  updateDB_def Seek_def updateDB_record_def readDependencies_def Slice_data_def c_str_def Let_def

lemmas eval_compile =
  compile_def compile_input_def getInclusions_def setDependency_def

subsection \<open>addCursor and the traversal\<close>

lemma addCursor_parents_ok:
  "\<exists>ns. addCursor_parents fe c names = Inr (names @ ns)"
proof (induction c arbitrary: names)
  case NullCursor
  then show ?case by simp
next
  case (Cursor k f l c' ofs n d p)
  show ?case
    using Cursor.IH [of names] Cursor.IH [of "names @ [symbolName (CursorKey_of fe p)]"]
    by (auto simp: Let_def isValid_def)
qed

lemma addCursor_Inr:
  "isValid key \<Longrightarrow> \<exists>ns. addCursor fe c key d = Inr \<lparr> Data.cursor = key, parentNames = parentNames d @ ns \<rparr>"
  using addCursor_parents_ok [of fe c "parentNames d"] by (auto simp: addCursor_def)

lemma addCursor_result:
  "addCursor fe c key d = Inr d' \<Longrightarrow> isValid key \<and> Data.cursor d' = key"
  by (auto simp: addCursor_def split: if_splits sum.splits)

lemma collectSymbols_entry_frame:
  "collectSymbols_entry fe c key i st = Inr (r, st') \<Longrightarrow>
     CollectData.dependencies st' = CollectData.dependencies st \<and> seen st' = seen st
     \<and> length (data st') = length (data st)"
  by (auto simp: collectSymbols_entry_def Let_def split: if_splits sum.splits)

lemma collectSymbols_dependencies:
  "collectSymbols fe c st = Inr (r, st') \<Longrightarrow>
     CollectData.dependencies st' = CollectData.dependencies st"
  by (auto simp: collectSymbols_def Let_def split: if_splits option.splits
      dest!: collectSymbols_entry_frame)

lemma visit_invariant:
  shows "(\<And>c s r s'. I s \<Longrightarrow> collectSymbols fe c s = Inr (r, s') \<Longrightarrow> I s')
      \<Longrightarrow> I st \<Longrightarrow> visitChildren fe ts st = Inr (b, st') \<Longrightarrow> I st'"
    and "(\<And>c s r s'. I s \<Longrightarrow> collectSymbols fe c s = Inr (r, s') \<Longrightarrow> I s')
      \<Longrightarrow> I st \<Longrightarrow> visitChild fe t st = Inr (b, st') \<Longrightarrow> I st'"
proof (induction fe ts st and fe t st arbitrary: b st' and b st'
    rule: visitChildren_visitChild.induct)
  case (1 fe st)
  then show ?case by simp
next
  case (2 fe t ts st)
  note step = "2.prems"(1)
  from "2.prems"(3) obtain b1 st1 where v1: "visitChild fe t st = Inr (b1, st1)"
    by (auto split: sum.splits)
  have i1: "I st1" using "2.IH"(1) [OF step "2.prems"(2) v1] .
  show ?case
  proof (cases b1)
    case True
    with "2.prems"(3) v1 i1 show ?thesis by simp
  next
    case False
    with "2.prems"(3) v1 have v2: "visitChildren fe ts st1 = Inr (b, st')" by simp
    have "Inr (b1, st1) = (Inr (b1, st1) :: error + bool \<times> CollectData)" by simp
    from "2.IH"(2) [OF v1 refl False step i1 v2] show ?thesis .
  qed
next
  case (3 fe c cs st)
  note step = "3.prems"(1)
  from "3.prems"(3) obtain r st1 where c1: "collectSymbols fe c st = Inr (r, st1)"
    by (auto split: sum.splits)
  have i1: "I st1" using step [OF "3.prems"(2) c1] .
  show ?case
  proof (cases r)
    case CXChildVisit_Break
    with "3.prems"(3) c1 i1 show ?thesis by simp
  next
    case CXChildVisit_Continue
    with "3.prems"(3) c1 i1 show ?thesis by simp
  next
    case CXChildVisit_Recurse
    with "3.prems"(3) c1 have v2: "visitChildren fe cs st1 = Inr (b, st')" by simp
    from "3.IH" [OF c1 refl CXChildVisit_Recurse step i1 v2] show ?thesis .
  qed
qed

lemma visitChildren_dependencies:
  assumes "visitChildren fe ts st = Inr (b, st')"
  shows "CollectData.dependencies st' = CollectData.dependencies st"
  by (rule visit_invariant(1)
      [where I = "\<lambda>s. CollectData.dependencies s = CollectData.dependencies st", OF _ _ assms])
     (auto dest: collectSymbols_dependencies)

subsection \<open>Merging of repeated visits\<close>

text \<open>
  C6. First definition wins: when the entry of the location of a cursor has its
  \<open>hasDefinition\<close> set, a visit of the cursor changes nothing in the store (so the
  entry keeps \<open>hasDefinition\<close>, \<open>cursor\<close> and \<open>reference\<close>), and the traversal goes
  on into the children.
\<close>

theorem first_definition_wins:
  assumes "seen st (locationKey (CursorKey_of fe c)) = Some i"
    and "hasDefinition (data st ! i)"
  shows "collectSymbols fe c st = Inr (CXChildVisit_Recurse, st)"
  using assms by (simp add: collectSymbols_def Let_def)

text \<open>An instance: a second visit at \<^verbatim>\<open>a.cpp:5\<close>, whose entry has a definition.\<close>

theorem first_definition_wins_witness:
  "collectSymbols clang0 (Cursor CXCursor_FunctionDecl ''a.cpp'' 2 6 5 ''f()'' True NullCursor)
     \<lparr> seen = [''a.cpp:5'' \<mapsto> 0],
       data = [DataEntry_new \<lparr> hasDefinition := True \<rparr>],
       CollectData.dependencies = [] \<rparr>
   = Inr (CXChildVisit_Recurse,
     \<lparr> seen = [''a.cpp:5'' \<mapsto> 0],
       data = [DataEntry_new \<lparr> hasDefinition := True \<rparr>],
       CollectData.dependencies = [] \<rparr>)"
  by (rule first_definition_wins [where i = 0]) (simp_all add: eval_key clang0_def)

text \<open>
  C2, as the code has it. When the location of a cursor (with a valid key, not an
  inclusion directive) has an entry whose \<open>hasDefinition\<close> is not set, a visit of the
  cursor adds no entry and leaves \<open>seen\<close> and every other entry as they are, so the
  location keeps its one entry, and the traversal goes on into the children. When the front end finds for the
  cursor a definition at another location, the cursor key of the entry becomes the key
  of this visit, its reference key becomes the key of the definition when that key is
  valid, and \<open>hasDefinition\<close> is set unless the cursor is a call expression. In
  every other case, so for a cursor that is its own definition, \<open>hasDefinition\<close>
  stays unset: the entry gets the key of this visit and the key of the referenced
  cursor when its reference key was null or equal to its cursor key and the key of the
  referenced cursor is valid, and the store is unchanged otherwise.
\<close>

theorem merge_upgrade:
  assumes v: "isValid (CursorKey_of fe c)"
    and s: "seen st (locationKey (CursorKey_of fe c)) = Some i"
    and n: "i < length (data st)"
    and h: "\<not> hasDefinition (data st ! i)"
    and k: "kind (CursorKey_of fe c) \<noteq> CXCursor_InclusionDirective"
  shows "\<exists>st'. collectSymbols fe c st = Inr (CXChildVisit_Recurse, st')
    \<and> seen st' = seen st
    \<and> length (data st') = length (data st)
    \<and> (\<forall>j. j \<noteq> i \<longrightarrow> data st' ! j = data st ! j)
    \<and> (if cursorDefinition (clang_getCursorDefinition fe c)
           \<and> \<not> equalLocation (CursorKey_of fe c)
                 (CursorKey_of fe (clang_getCursorDefinition fe c))
        then hasDefinition (data st' ! i) = (clang_getCursorKind c \<noteq> CXCursor_CallExpr)
           \<and> Data.cursor (DataEntry.cursor (data st' ! i)) = CursorKey_of fe c
           \<and> Data.cursor (reference (data st' ! i)) =
               (if isValid (CursorKey_of fe (clang_getCursorDefinition fe c))
                then CursorKey_of fe (clang_getCursorDefinition fe c)
                else Data.cursor (reference (data st ! i)))
        else \<not> hasDefinition (data st' ! i)
           \<and> (if (isNull (Data.cursor (reference (data st ! i)))
                   \<or> CursorKey_eq (Data.cursor (reference (data st ! i)))
                        (Data.cursor (DataEntry.cursor (data st ! i))))
                  \<and> isValid (CursorKey_of fe (clang_getCursorReferenced fe c))
               then Data.cursor (DataEntry.cursor (data st' ! i)) = CursorKey_of fe c
                  \<and> Data.cursor (reference (data st' ! i))
                      = CursorKey_of fe (clang_getCursorReferenced fe c)
               else st' = st))"
proof -
  let ?key = "CursorKey_of fe c"
  let ?def = "clang_getCursorDefinition fe c"
  let ?ref = "clang_getCursorReferenced fe c"
  let ?entry = "data st ! i"
  obtain ns where a1: "addCursor fe c ?key (DataEntry.cursor ?entry) =
      Inr \<lparr> Data.cursor = ?key, parentNames = parentNames (DataEntry.cursor ?entry) @ ns \<rparr>"
    using addCursor_Inr [OF v] by blast
  have c: "collectSymbols fe c st = collectSymbols_entry fe c ?key i st"
    using v s h by (simp add: collectSymbols_def Let_def)
  show ?thesis
  proof (cases "cursorDefinition ?def \<and> \<not> equalLocation ?key (CursorKey_of fe ?def)")
    case True
    then have d: "cursorDefinition ?def"
      and l: "\<not> equalLocation ?key (CursorKey_of fe ?def)" by simp_all
    show ?thesis
    proof (cases "isValid (CursorKey_of fe ?def)")
      case vd: True
      obtain ms where a2: "addCursor fe ?def (CursorKey_of fe ?def) (reference ?entry) =
        Inr \<lparr> Data.cursor = CursorKey_of fe ?def,
              parentNames = parentNames (reference ?entry) @ ms \<rparr>"
        using addCursor_Inr [OF vd] by blast
      show ?thesis
        unfolding c
        using k d l n h vd a1 a2
        by (simp add: collectSymbols_entry_def Let_def cursorDefinitionFor_def)
    next
      case vd: False
      show ?thesis
        unfolding c
        using k d l n h vd a1
        by (simp add: collectSymbols_entry_def Let_def cursorDefinitionFor_def)
    qed
  next
    case False
    then have b: "\<not> cursorDefinition ?def \<or> equalLocation ?key (CursorKey_of fe ?def)"
      by simp
    show ?thesis
    proof (cases "(isNull (Data.cursor (reference ?entry))
                   \<or> CursorKey_eq (Data.cursor (reference ?entry))
                        (Data.cursor (DataEntry.cursor ?entry)))
                  \<and> isValid (CursorKey_of fe ?ref)")
      case g: True
      then have vr: "isValid (CursorKey_of fe ?ref)" by simp
      obtain ms where a2: "addCursor fe ?ref (CursorKey_of fe ?ref) (reference ?entry) =
        Inr \<lparr> Data.cursor = CursorKey_of fe ?ref,
              parentNames = parentNames (reference ?entry) @ ms \<rparr>"
        using addCursor_Inr [OF vr] by blast
      have r: "collectSymbols_entry fe c ?key i st =
          Inr (CXChildVisit_Recurse,
               st \<lparr> data := (data st)
                 [i := ?entry \<lparr> DataEntry.cursor :=
                     \<lparr> Data.cursor = ?key,
                       parentNames = parentNames (DataEntry.cursor ?entry) @ ns \<rparr>,
                   reference := \<lparr> Data.cursor = CursorKey_of fe ?ref,
                       parentNames = parentNames (reference ?entry) @ ms \<rparr> \<rparr>] \<rparr>)"
        using k b g a1 a2 by (auto simp: collectSymbols_entry_def Let_def)
      show ?thesis
        unfolding c r using False g n h by auto
    next
      case g: False
      have r: "collectSymbols_entry fe c ?key i st = Inr (CXChildVisit_Recurse, st)"
        using k b g by (auto simp: collectSymbols_entry_def Let_def)
      show ?thesis
        unfolding c r using False g h by auto
    qed
  qed
qed

text \<open>
  Two instances. The location \<^verbatim>\<open>a.h:30\<close> is visited first through a cursor without a
  definition and then through the declaration of the method, whose definition is in
  \<^verbatim>\<open>a.cpp\<close>: the second visit sets \<open>hasDefinition\<close>. The location \<^verbatim>\<open>a.cpp:5\<close>
  is visited first through a cursor that is not a definition and then through the
  definition \<open>f_decl\<close>: the second visit leaves \<open>hasDefinition\<close> unset.
\<close>

theorem merge_upgrade_witness:
  "collectSymbols clang_two method_seen CollectData_new = Inr (CXChildVisit_Recurse, store_seen)
   \<and> locationKey (CursorKey_of clang_two method_seen)
       = locationKey (CursorKey_of clang_two method_decl)
   \<and> \<not> hasDefinition (data store_seen ! 0)
   \<and> collectSymbols clang_two method_decl store_seen
       = Inr (CXChildVisit_Recurse, store_decl_only)
   \<and> hasDefinition (data store_decl_only ! 0)
   \<and> Data.cursor (DataEntry.cursor (data store_decl_only ! 0))
       = CursorKey_of clang_two method_decl
   \<and> Data.cursor (reference (data store_decl_only ! 0)) = CursorKey_of clang_two method_def
   \<and> \<not> hasDefinition (data store_forward ! 0)
   \<and> collectSymbols clang_unit f_decl store_forward
       = Inr (CXChildVisit_Recurse, store_defined)
   \<and> \<not> hasDefinition (data store_defined ! 0)
   \<and> Data.cursor (DataEntry.cursor (data store_defined ! 0)) = CursorKey_of clang_unit f_decl
   \<and> Data.cursor (reference (data store_defined ! 0)) = CursorKey_of clang_unit f_decl"
proof -
  have 0: "collectSymbols clang_two method_seen CollectData_new
      = Inr (CXChildVisit_Recurse, store_seen)"
    by (simp add: eval_visit eval_key clang_two_def clang0_def method_seen_def method_decl_def
        method_def_def store_seen_def)
  have lk: "locationKey (CursorKey_of clang_two method_seen)
       = locationKey (CursorKey_of clang_two method_decl)"
    by (simp add: eval_key clang_two_def clang0_def method_seen_def method_decl_def)
  have v: "isValid (CursorKey_of clang_two method_decl)"
    and s: "seen store_seen (locationKey (CursorKey_of clang_two method_decl)) = Some 0"
    and n: "0 < length (data store_seen)"
    and h: "\<not> hasDefinition (data store_seen ! 0)"
    and k: "kind (CursorKey_of clang_two method_decl) \<noteq> CXCursor_InclusionDirective"
    and d: "cursorDefinition (clang_getCursorDefinition clang_two method_decl)"
    and l: "\<not> equalLocation (CursorKey_of clang_two method_decl)
          (CursorKey_of clang_two (clang_getCursorDefinition clang_two method_decl))"
    and e: "clang_getCursorKind method_decl \<noteq> CXCursor_CallExpr"
    by (simp_all add: eval_key clang_two_def clang0_def method_decl_def method_def_def
        store_seen_def)
  have c: "collectSymbols clang_two method_decl store_seen
       = Inr (CXChildVisit_Recurse, store_decl_only)"
    by (simp add: eval_visit eval_key clang_two_def clang0_def method_decl_def
        method_def_def store_seen_def store_decl_only_def)
  have vd: "isValid (CursorKey_of clang_two (clang_getCursorDefinition clang_two method_decl))"
    and df: "clang_getCursorDefinition clang_two method_decl = method_def"
    by (simp_all add: eval_key clang_two_def clang0_def method_decl_def method_def_def)
  from merge_upgrade [OF v s n h k] c d l e vd
  have a: "hasDefinition (data store_decl_only ! 0)
    \<and> Data.cursor (DataEntry.cursor (data store_decl_only ! 0))
       = CursorKey_of clang_two method_decl
    \<and> Data.cursor (reference (data store_decl_only ! 0))
       = CursorKey_of clang_two (clang_getCursorDefinition clang_two method_decl)"
    by auto
  have v': "isValid (CursorKey_of clang_unit f_decl)"
    and s': "seen store_forward (locationKey (CursorKey_of clang_unit f_decl)) = Some 0"
    and n': "0 < length (data store_forward)"
    and h': "\<not> hasDefinition (data store_forward ! 0)"
    and k': "kind (CursorKey_of clang_unit f_decl) \<noteq> CXCursor_InclusionDirective"
    and l': "equalLocation (CursorKey_of clang_unit f_decl)
          (CursorKey_of clang_unit (clang_getCursorDefinition clang_unit f_decl))"
    and g': "CursorKey_eq (Data.cursor (reference (data store_forward ! 0)))
          (Data.cursor (DataEntry.cursor (data store_forward ! 0)))"
    and r': "clang_getCursorReferenced clang_unit f_decl = f_decl"
    by (simp_all add: eval_key clang_unit_def clang0_def f_decl_def store_forward_def)
  have c': "collectSymbols clang_unit f_decl store_forward
       = Inr (CXChildVisit_Recurse, store_defined)"
    by (simp add: eval_visit eval_key clang_unit_def clang0_def f_decl_def
        store_forward_def store_defined_def)
  from merge_upgrade [OF v' s' n' h' k'] c' l' g' v' r'
  have b: "\<not> hasDefinition (data store_defined ! 0)
    \<and> Data.cursor (DataEntry.cursor (data store_defined ! 0)) = CursorKey_of clang_unit f_decl
    \<and> Data.cursor (reference (data store_defined ! 0)) = CursorKey_of clang_unit f_decl"
    by auto
  from 0 lk h c a df h' c' b show ?thesis by simp
qed

text \<open>
  C2, as it is stated, fails: the definition cursor of a cursor that is itself the
  definition is at the location of the cursor, so the visit takes the branch of a
  reference, which never sets \<open>hasDefinition\<close>. After the visit of a cursor that is
  not a definition and the visit of the definition at the same location the entry has
  the keys of the second visit, but \<open>hasDefinition\<close> is still false.
\<close>

theorem merge_definition_visit_counterexample:
  "\<not> isDefinition (CursorKey_of clang_unit f_forward)
   \<and> isDefinition (CursorKey_of clang_unit f_decl)
   \<and> locationKey (CursorKey_of clang_unit f_forward)
       = locationKey (CursorKey_of clang_unit f_decl)
   \<and> collectSymbols clang_unit f_forward CollectData_new
       = Inr (CXChildVisit_Recurse, store_forward)
   \<and> collectSymbols clang_unit f_decl store_forward
       = Inr (CXChildVisit_Recurse, store_defined)
   \<and> \<not> hasDefinition (data store_defined ! 0)"
  by (simp add: eval_visit eval_key clang_unit_def clang0_def f_forward_def f_decl_def
      store_forward_def store_defined_def)

subsection \<open>Location strings\<close>

lemma digit_in: "d < 10 \<Longrightarrow> digit d \<in> set ''0123456789''"
  unfolding digit_def by (rule nth_mem) simp

lemma digit_inj: "a < 10 \<Longrightarrow> b < 10 \<Longrightarrow> digit a = digit b \<Longrightarrow> a = b"
  unfolding digit_def
  by (subst (asm) nth_eq_iff_index_eq) simp_all

lemma number_not_Nil: "number n \<noteq> []"
  by (subst number.simps) simp

lemma number_digits: "set (number n) \<subseteq> set ''0123456789''"
proof (induction n rule: number.induct)
  case (1 n)
  show ?case
  proof (cases "n < 10")
    case True
    then show ?thesis
      using digit_in [of n] by (subst number.simps) simp
  next
    case False
    have "n mod 10 < 10" by simp
    from digit_in [OF this] "1.IH" [OF False] False show ?thesis
      by (subst number.simps) simp
  qed
qed

lemma colon_not_in_number: "CHR '':'' \<notin> set (number n)"
  using number_digits [of n] by auto

lemma number_inj: "number a = number b \<Longrightarrow> a = b"
proof (induction a arbitrary: b rule: number.induct)
  case (1 a)
  show ?case
  proof (cases "a < 10")
    case a: True
    show ?thesis
    proof (cases "b < 10")
      case True
      with a "1.prems" show ?thesis
        by (simp add: number.simps [of a] number.simps [of b] digit_inj)
    next
      case False
      with a "1.prems" number_not_Nil [of "b div 10"] show ?thesis
        by (simp add: number.simps [of a] number.simps [of b])
    qed
  next
    case a: False
    show ?thesis
    proof (cases "b < 10")
      case True
      with a "1.prems" number_not_Nil [of "a div 10"] show ?thesis
        by (simp add: number.simps [of a] number.simps [of b])
    next
      case False
      with a "1.prems" have n: "number (a div 10) = number (b div 10)"
        and d: "digit (a mod 10) = digit (b mod 10)"
        by (simp_all add: number.simps [of a] number.simps [of b])
      from "1.IH" [OF a n] have "a div 10 = b div 10" .
      moreover from digit_inj [OF _ _ d] have "a mod 10 = b mod 10" by simp
      ultimately show ?thesis by (metis div_mult_mod_eq)
    qed
  qed
qed

lemma first_occurrence:
  "c \<notin> set xs \<Longrightarrow> c \<notin> set ys \<Longrightarrow> xs @ c # r = ys @ c # r' \<Longrightarrow> xs = ys \<and> r = r'"
proof (induction xs arbitrary: ys)
  case Nil
  then show ?case by (cases ys) auto
next
  case (Cons x xs)
  then show ?case by (cases ys) auto
qed

lemma split_last_colon:
  assumes "a @ '':'' @ x = b @ '':'' @ y"
    and "CHR '':'' \<notin> set x" and "CHR '':'' \<notin> set y"
  shows "a = b \<and> x = y"
proof -
  from assms(1) have "rev (a @ '':'' @ x) = rev (b @ '':'' @ y)" by simp
  then have "rev x @ CHR '':'' # rev a = rev y @ CHR '':'' # rev b" by simp
  with assms(2,3) have "rev x = rev y \<and> rev a = rev b"
    by (intro first_occurrence [of "CHR '':''"]) simp_all
  then show ?thesis by simp
qed

lemma cursorKeyToString_inj:
  assumes "cursorKeyToString a = cursorKeyToString b"
  shows "fileName a = fileName b \<and> line a = line b \<and> col a = col b"
proof -
  from assms have "(fileName a @ '':'' @ number (unat (line a))) @ '':'' @ number (unat (col a))
      = (fileName b @ '':'' @ number (unat (line b))) @ '':'' @ number (unat (col b))"
    by (simp add: cursorKeyToString_def)
  from split_last_colon [OF this colon_not_in_number colon_not_in_number]
  have 1: "fileName a @ '':'' @ number (unat (line a)) = fileName b @ '':'' @ number (unat (line b))"
    and 2: "number (unat (col a)) = number (unat (col b))" by simp_all
  from split_last_colon [OF 1 colon_not_in_number colon_not_in_number]
  have 3: "fileName a = fileName b" and 4: "number (unat (line a)) = number (unat (line b))"
    by simp_all
  from number_inj [OF 2] number_inj [OF 4] 3 show ?thesis
    by (simp add: word_unat_eq_iff)
qed

lemma locationKey_inj:
  assumes "locationKey a = locationKey b"
  shows "fileName a = fileName b \<and> off a = off b"
proof -
  from assms have "fileName a @ '':'' @ number (unat (off a))
      = fileName b @ '':'' @ number (unat (off b))"
    by (simp add: locationKey_def)
  from split_last_colon [OF this colon_not_in_number colon_not_in_number]
  have "fileName a = fileName b" and "number (unat (off a)) = number (unat (off b))"
    by simp_all
  with number_inj [of "unat (off a)" "unat (off b)"] show ?thesis
    by (simp add: word_unat_eq_iff)
qed

lemma locationKey_valid_not_null:
  "isValid key \<Longrightarrow> locationKey key \<noteq> locationKey CursorKey_null"
  using locationKey_inj [of key CursorKey_null]
  by (auto simp: isValid_def CursorKey_null_def)

subsection \<open>The invariant of indexing\<close>

lemma collectSymbols_entry_cases:
  assumes "collectSymbols_entry fe c key i st = Inr (r, st')"
  shows "st' = st
    \<or> (isValid key \<and> (\<exists>e'. st' = st \<lparr> data := (data st) [i := e'] \<rparr>
          \<and> entry_key e' = key \<and> references e' = references (data st ! i)))"
proof -
  have upd: "isValid key \<and> (\<exists>e'. st \<lparr> data := (data st) [i := e0] \<rparr> = st \<lparr> data := (data st) [i := e'] \<rparr>
          \<and> entry_key e' = key \<and> references e' = references (data st ! i))"
    if "isValid key" "entry_key e0 = key" "references e0 = references (data st ! i)" for e0
    using that by blast
  show ?thesis
    using assms
    unfolding collectSymbols_entry_def Let_def
    by (auto split: if_splits sum.splits dest!: addCursor_result)
qed

lemma store_invariant_new: "store_invariant CollectData_new"
  by (simp add: store_invariant_def CollectData_new_def)

lemma store_invariant_update:
  assumes inv: "store_invariant st"
    and i: "seen st (locationKey key) = Some i"
    and v: "isValid key"
    and k: "entry_key e' = key"
    and r: "references e' = references (data st ! i)"
  shows "store_invariant (st \<lparr> data := (data st) [i := e'] \<rparr>)"
proof -
  from inv i have n: "i < length (data st)" by (auto simp: store_invariant_def)
  have "if isValid (entry_key ((data st) [i := e'] ! j))
        then seen st (locationKey (entry_key ((data st) [i := e'] ! j))) = Some j
        else entry_key ((data st) [i := e'] ! j) = CursorKey_null
           \<and> entry_ref ((data st) [i := e'] ! j) = CursorKey_null"
    if "j < length (data st)" for j
  proof (cases "j = i")
    case True
    with n v k i show ?thesis by simp
  next
    case False
    with inv that show ?thesis by (simp add: store_invariant_def)
  qed
  moreover have "references ((data st) [i := e'] ! j) = {}" if "j < length (data st)" for j
    using inv that r n by (cases "j = i") (auto simp: store_invariant_def)
  ultimately show ?thesis
    using inv by (simp add: store_invariant_def)
qed

lemma collectSymbols_entry_invariant:
  assumes "store_invariant st"
    and "seen st (locationKey key) = Some i"
    and "collectSymbols_entry fe c key i st = Inr (r, st')"
  shows "store_invariant st'"
  using collectSymbols_entry_cases [OF assms(3)] assms(1,2)
  by (auto intro: store_invariant_update)

lemma store_invariant_append:
  assumes inv: "store_invariant st"
    and none: "seen st (locationKey key) = None"
    and v: "isValid key"
  shows "store_invariant
    (st \<lparr> seen := (seen st)(locationKey key \<mapsto> length (data st)),
          data := data st @ [DataEntry_new] \<rparr>)"
proof -
  let ?n = "length (data st)"
  let ?seen = "(seen st)(locationKey key \<mapsto> ?n)"
  let ?data = "data st @ [DataEntry_new]"
  have 1: "i < length ?data" if "?seen k = Some i" for k i
    using that inv by (auto simp: store_invariant_def less_Suc_eq split: if_splits)
  have 2: "?seen (locationKey CursorKey_null) = None"
    using inv locationKey_valid_not_null [OF v] by (auto simp: store_invariant_def)
  have 3: "if isValid (entry_key (?data ! j))
        then ?seen (locationKey (entry_key (?data ! j))) = Some j
        else entry_key (?data ! j) = CursorKey_null \<and> entry_ref (?data ! j) = CursorKey_null"
    if "j < length ?data" for j
  proof (cases "j < ?n")
    case True
    then have e: "?data ! j = data st ! j" by (simp add: nth_append)
    show ?thesis
    proof (cases "isValid (entry_key (data st ! j))")
      case v: True
      with inv True have s: "seen st (locationKey (entry_key (data st ! j))) = Some j"
        by (simp add: store_invariant_def)
      with none have "locationKey (entry_key (data st ! j)) \<noteq> locationKey key" by auto
      with s v show ?thesis unfolding e by simp
    next
      case False
      with inv True show ?thesis unfolding e by (simp add: store_invariant_def)
    qed
  next
    case False
    with that have "j = ?n" by simp
    then show ?thesis
      by (simp add: DataEntry_new_def Data_new_def CursorKey_null_def isValid_def)
  qed
  have 4: "references (?data ! j) = {}" if "j < length ?data" for j
    using that inv
    by (cases "j < ?n") (auto simp: store_invariant_def nth_append DataEntry_new_def)
  have sel: "seen (st \<lparr> seen := ?seen, data := ?data \<rparr>) = ?seen"
    "data (st \<lparr> seen := ?seen, data := ?data \<rparr>) = ?data"
    by simp_all
  show ?thesis
    unfolding store_invariant_def sel using 1 2 3 4 by blast
qed

lemma collectSymbols_invariant:
  assumes inv: "store_invariant st" and c: "collectSymbols fe c st = Inr (r, st')"
  shows "store_invariant st'"
proof (cases "isValid (CursorKey_of fe c)")
  case False
  with c inv show ?thesis by (simp add: collectSymbols_def Let_def)
next
  case v: True
  let ?key = "CursorKey_of fe c"
  show ?thesis
  proof (cases "seen st (locationKey ?key)")
    case None
    let ?st1 = "st \<lparr> seen := (seen st)(locationKey ?key \<mapsto> length (data st)),
          data := data st @ [DataEntry_new] \<rparr>"
    from c v None have e: "collectSymbols_entry fe c ?key (length (data st)) ?st1 = Inr (r, st')"
      by (simp add: collectSymbols_def Let_def)
    have "seen ?st1 (locationKey ?key) = Some (length (data st))" by simp
    from collectSymbols_entry_invariant [OF store_invariant_append [OF inv None v] this e]
    show ?thesis .
  next
    case (Some i)
    show ?thesis
    proof (cases "hasDefinition (data st ! i)")
      case True
      with c v Some inv show ?thesis by (simp add: collectSymbols_def Let_def)
    next
      case False
      with c v Some have "collectSymbols_entry fe c ?key i st = Inr (r, st')"
        by (simp add: collectSymbols_def Let_def)
      from collectSymbols_entry_invariant [OF inv Some this] show ?thesis .
    qed
  qed
qed

lemma store_invariant_dependencies:
  "store_invariant (st \<lparr> CollectData.dependencies := x \<rparr>) = store_invariant st"
  by (simp add: store_invariant_def)

lemma visitChildren_store_invariant:
  assumes "store_invariant st" and "visitChildren fe ts st = Inr (b, st')"
  shows "store_invariant st'"
  by (rule visit_invariant(1) [where I = store_invariant, OF _ assms])
     (rule collectSymbols_invariant)

lemma compile_input_store_invariant:
  assumes "store_invariant st" and "compile_input fe args inp st = Inr st'"
  shows "store_invariant st'"
proof (cases "clang_parseTranslationUnit fe inp args")
  case None
  with assms show ?thesis by (simp add: compile_input_def)
next
  case (Some unit)
  with assms(2) obtain b st1 where v: "visitChildren fe (unitChildren unit) st = Inr (b, st1)"
    and s: "\<exists>x. st' = st1 \<lparr> CollectData.dependencies := x \<rparr>"
    by (auto simp: compile_input_def Let_def split: sum.splits)
  from visitChildren_store_invariant [OF assms(1) v] s show ?thesis
    by (auto simp: store_invariant_dependencies)
qed

lemma compile_inputs_store_invariant:
  assumes "store_invariant st" and "compile_inputs fe args inps st = Inr st'"
  shows "store_invariant st'"
  using assms
proof (induction inps arbitrary: st)
  case Nil
  then show ?case by simp
next
  case (Cons inp inps)
  from Cons.prems(2) obtain st1 where 1: "compile_input fe args inp st = Inr st1"
    and 2: "compile_inputs fe args inps st1 = Inr st'"
    by (auto split: sum.splits)
  from Cons.IH [OF compile_input_store_invariant [OF Cons.prems(1) 1] 2] show ?case .
qed

lemma makefileFileReady_all_store_invariant:
  assumes "store_invariant st" and "makefileFileReady_all fe items st = Inr st'"
  shows "store_invariant st'"
  using assms
proof (induction items arbitrary: st)
  case Nil
  then show ?case by simp
next
  case (Cons args items)
  from Cons.prems(2) obtain st1 where 1: "compile_inputs fe args (GccArguments_input fe args) st = Inr st1"
    and 2: "makefileFileReady_all fe items st1 = Inr st'"
    by (auto simp: compile_def split: sum.splits)
  from Cons.IH [OF compile_inputs_store_invariant [OF Cons.prems(1) 1] 2] show ?case .
qed

subsection \<open>The back-reference pass\<close>

lemma writeData_references_append:
  "writeData_references (xs @ ys) st =
     (case writeData_references xs st of Inl e \<Rightarrow> Inl e | Inr st' \<Rightarrow> writeData_references ys st')"
  by (induction xs arbitrary: st) (auto split: sum.splits)

text \<open>
  C4. The round of a method, constructor or destructor whose key differs from its
  reference and is not a definition looks the reference up in \<open>seen\<close>, asserts
  \<^verbatim>\<open>Q_ASSERT(def && def != entry)\<close> and writes through \<^verbatim>\<open>def\<close> with no test of the
  pointer; the round of every other entry tests its pointer (\<^verbatim>\<open>if (r)\<close>). When the
  location key of the reference of the entry \<open>i\<close> has no entry in \<open>seen\<close>, the
  pointer is null: the round of such a method, constructor or destructor fails, and
  \<^verbatim>\<open>writeData\<close> ends there with nothing reported and nothing written (a build
  without assertions writes through the null pointer at this place). The round of every
  other entry changes nothing, and the pass goes on.
\<close>

theorem missing_definition_entry_aborts:
  assumes "i < length (data st)"
    and "writeData_references [0 ..< i] st = Inr st_i"
    and "seen st_i (locationKey (Data.cursor (reference (data st_i ! i)))) = None"
  shows "writeData_reference i st_i =
      (if (kind (Data.cursor (DataEntry.cursor (data st_i ! i))) = CXCursor_CXXMethod
           \<or> kind (Data.cursor (DataEntry.cursor (data st_i ! i))) = CXCursor_Constructor
           \<or> kind (Data.cursor (DataEntry.cursor (data st_i ! i))) = CXCursor_Destructor)
          \<and> CursorKey_neq (Data.cursor (DataEntry.cursor (data st_i ! i)))
                (Data.cursor (reference (data st_i ! i)))
          \<and> \<not> isDefinition (Data.cursor (DataEntry.cursor (data st_i ! i)))
       then Inl AssertionFailed else Inr st_i)
    \<and> (writeData_reference i st_i = Inl AssertionFailed
         \<longrightarrow> writeData True st = Inl AssertionFailed)"
proof -
  have round: "writeData_reference i st_i =
      (if (kind (Data.cursor (DataEntry.cursor (data st_i ! i))) = CXCursor_CXXMethod
           \<or> kind (Data.cursor (DataEntry.cursor (data st_i ! i))) = CXCursor_Constructor
           \<or> kind (Data.cursor (DataEntry.cursor (data st_i ! i))) = CXCursor_Destructor)
          \<and> CursorKey_neq (Data.cursor (DataEntry.cursor (data st_i ! i)))
                (Data.cursor (reference (data st_i ! i)))
          \<and> \<not> isDefinition (Data.cursor (DataEntry.cursor (data st_i ! i)))
       then Inl AssertionFailed else Inr st_i)"
    using assms(3) by (simp add: writeData_reference_def Let_def)
  have split: "[0 ..< length (data st)] = [0 ..< i] @ i # [Suc i ..< length (data st)]"
    using assms(1) upt_add_eq_append [of 0 i "length (data st) - i"]
    by (simp add: upt_conv_Cons)
  have "writeData True st = Inl AssertionFailed"
    if "writeData_reference i st_i = Inl AssertionFailed"
    using that assms(2) by (simp add: writeData_def split writeData_references_append)
  with round show ?thesis by blast
qed

text \<open>An instance: the store after a visit of the declaration of the method alone.\<close>

theorem missing_definition_entry_aborts_witness:
  "writeData_references [0 ..< 0] store_decl_only = Inr store_decl_only
   \<and> seen store_decl_only
        (locationKey (Data.cursor (reference (data store_decl_only ! 0)))) = None
   \<and> writeData True store_decl_only = Inl AssertionFailed"
proof -
  have 1: "0 < length (data store_decl_only)" by (simp add: store_decl_only_def)
  have 2: "writeData_references [0 ..< 0] store_decl_only = Inr store_decl_only" by simp
  have 3: "seen store_decl_only
        (locationKey (Data.cursor (reference (data store_decl_only ! 0)))) = None"
    by (simp add: store_decl_only_def eval_key)
  from missing_definition_entry_aborts [OF 1 2 3]
  have "writeData True store_decl_only = Inl AssertionFailed"
    by (simp add: store_decl_only_def eval_key)
  with 2 3 show ?thesis by blast
qed

text \<open>
  The input at which the code and C4 differ: after a visit of the declaration of a
  method whose definition has no entry, \<^verbatim>\<open>writeData\<close> does not complete.
\<close>

theorem missing_definition_entry_counterexample:
  "collectSymbols clang_method method_decl CollectData_new
     = Inr (CXChildVisit_Recurse, store_decl_only)
   \<and> writeData True store_decl_only = Inl AssertionFailed"
  by (simp add: eval_visit eval_write eval_key clang_method_def clang0_def method_decl_def
      method_def_def store_decl_only_def)

lemma writeData_reference_cases:
  assumes "writeData_reference i st = Inr st'"
  shows "st' = st
    \<or> (\<exists>d. seen st (locationKey (entry_ref (data st ! i))) = Some d \<and> d \<noteq> i
          \<and> (kind (entry_key (data st ! i)) = CXCursor_CXXMethod
             \<or> kind (entry_key (data st ! i)) = CXCursor_Constructor
             \<or> kind (entry_key (data st ! i)) = CXCursor_Destructor)
          \<and> st' = st \<lparr> data := (data st)
                [d := (data st ! d) \<lparr> reference := DataEntry.cursor (data st ! i) \<rparr>] \<rparr>)
    \<or> (\<exists>r. seen st (locationKey (entry_ref (data st ! i))) = Some r \<and> r \<noteq> i
          \<and> st' = st \<lparr> data := (data st)
                [r := (data st ! r) \<lparr> references :=
                   insert (cursorKeyToString (entry_key (data st ! i)))
                     (references (data st ! r)) \<rparr>] \<rparr>)"
  using assms unfolding writeData_reference_def Let_def
  by (auto split: if_splits option.splits)

lemma self_reference_round:
  assumes "seen s (locationKey (entry_ref (data s ! i))) = Some i"
    and "writeData_reference i s = Inr s'"
  shows "s' = s"
  using writeData_reference_cases [OF assms(2)] assms(1) by auto

subsection \<open>The invariant of the back-reference pass\<close>

lemma pass_invariant_start:
  assumes "store_invariant st" and "locations_consistent st"
  shows "pass_invariant st"
  using assms unfolding store_invariant_def pass_invariant_def
  by (auto split: if_splits)

lemma locations_consistent_nth:
  "locations_consistent st \<longleftrightarrow>
     (\<forall>i < length (data st). \<forall>j < length (data st).
        fileName (entry_key (data st ! i)) = fileName (entry_key (data st ! j))
        \<and> line (entry_key (data st ! i)) = line (entry_key (data st ! j))
        \<and> col (entry_key (data st ! i)) = col (entry_key (data st ! j))
        \<longrightarrow> off (entry_key (data st ! i)) = off (entry_key (data st ! j)))"
proof
  assume l: "locations_consistent st"
  show "\<forall>i < length (data st). \<forall>j < length (data st).
        fileName (entry_key (data st ! i)) = fileName (entry_key (data st ! j))
        \<and> line (entry_key (data st ! i)) = line (entry_key (data st ! j))
        \<and> col (entry_key (data st ! i)) = col (entry_key (data st ! j))
        \<longrightarrow> off (entry_key (data st ! i)) = off (entry_key (data st ! j))"
  proof (intro allI impI)
    fix i j
    assume i: "i < length (data st)" and j: "j < length (data st)"
      and e: "fileName (entry_key (data st ! i)) = fileName (entry_key (data st ! j))
        \<and> line (entry_key (data st ! i)) = line (entry_key (data st ! j))
        \<and> col (entry_key (data st ! i)) = col (entry_key (data st ! j))"
    from i j have "data st ! i \<in> set (data st)" and "data st ! j \<in> set (data st)"
      by simp_all
    with l e show "off (entry_key (data st ! i)) = off (entry_key (data st ! j))"
      unfolding locations_consistent_def by blast
  qed
next
  assume r: "\<forall>i < length (data st). \<forall>j < length (data st).
        fileName (entry_key (data st ! i)) = fileName (entry_key (data st ! j))
        \<and> line (entry_key (data st ! i)) = line (entry_key (data st ! j))
        \<and> col (entry_key (data st ! i)) = col (entry_key (data st ! j))
        \<longrightarrow> off (entry_key (data st ! i)) = off (entry_key (data st ! j))"
  show "locations_consistent st"
    unfolding locations_consistent_def
  proof (intro ballI impI)
    fix e1 e2
    assume "e1 \<in> set (data st)" and "e2 \<in> set (data st)"
      and e: "fileName (entry_key e1) = fileName (entry_key e2)
        \<and> line (entry_key e1) = line (entry_key e2)
        \<and> col (entry_key e1) = col (entry_key e2)"
    then obtain i j where "i < length (data st)" "data st ! i = e1"
      "j < length (data st)" "data st ! j = e2"
      by (auto simp: in_set_conv_nth)
    with r e show "off (entry_key e1) = off (entry_key e2)" by blast
  qed
qed

lemma pass_invariant_parts:
  assumes "pass_invariant st"
  shows "\<And>k i. seen st k = Some i \<Longrightarrow> i < length (data st)"
    and "seen st (locationKey CursorKey_null) = None"
    and "\<And>i. i < length (data st) \<Longrightarrow> isValid (entry_key (data st ! i)) \<Longrightarrow>
          seen st (locationKey (entry_key (data st ! i))) = Some i"
    and "\<And>i. i < length (data st) \<Longrightarrow> \<not> isValid (entry_key (data st ! i)) \<Longrightarrow>
          entry_key (data st ! i) = CursorKey_null"
    and "\<And>i. i < length (data st) \<Longrightarrow> \<not> isValid (entry_key (data st ! i)) \<Longrightarrow>
          entry_ref (data st ! i) = CursorKey_null
          \<or> (\<exists>m < length (data st). isValid (entry_key (data st ! m))
                \<and> entry_ref (data st ! i) = entry_key (data st ! m))"
    and "locations_consistent st"
    and "\<And>i. i < length (data st) \<Longrightarrow>
          cursorKeyToString (entry_key (data st ! i)) \<notin> references (data st ! i)"
  using assms unfolding pass_invariant_def by (blast, blast, metis, metis, metis, blast, blast)

lemma pass_invariantI:
  assumes 1: "\<And>k i. seen st k = Some i \<Longrightarrow> i < length (data st)"
    and 2: "seen st (locationKey CursorKey_null) = None"
    and 3: "\<And>i. i < length (data st) \<Longrightarrow> isValid (entry_key (data st ! i)) \<Longrightarrow>
          seen st (locationKey (entry_key (data st ! i))) = Some i"
    and 4: "\<And>i. i < length (data st) \<Longrightarrow> \<not> isValid (entry_key (data st ! i)) \<Longrightarrow>
          entry_key (data st ! i) = CursorKey_null"
    and 5: "\<And>i. i < length (data st) \<Longrightarrow> \<not> isValid (entry_key (data st ! i)) \<Longrightarrow>
          entry_ref (data st ! i) = CursorKey_null
          \<or> (\<exists>m < length (data st). isValid (entry_key (data st ! m))
                \<and> entry_ref (data st ! i) = entry_key (data st ! m))"
    and 6: "locations_consistent st"
    and 7: "\<And>i. i < length (data st) \<Longrightarrow>
          cursorKeyToString (entry_key (data st ! i)) \<notin> references (data st ! i)"
  shows "pass_invariant st"
  unfolding pass_invariant_def
proof (intro conjI allI impI)
  fix k i assume "seen st k = Some i"
  then show "i < length (data st)" by (rule 1)
next
  show "seen st (locationKey CursorKey_null) = None" by (rule 2)
next
  fix i assume i: "i < length (data st)"
  show "if isValid (entry_key (data st ! i))
        then seen st (locationKey (entry_key (data st ! i))) = Some i
        else entry_key (data st ! i) = CursorKey_null
           \<and> (entry_ref (data st ! i) = CursorKey_null
              \<or> (\<exists>m < length (data st). isValid (entry_key (data st ! m))
                    \<and> entry_ref (data st ! i) = entry_key (data st ! m)))"
  proof (cases "isValid (entry_key (data st ! i))")
    case True
    with 3 [OF i] show ?thesis by simp
  next
    case False
    with 4 [OF i] 5 [OF i] show ?thesis by simp
  qed
next
  show "locations_consistent st" by (rule 6)
next
  fix i assume "i < length (data st)"
  then show "cursorKeyToString (entry_key (data st ! i)) \<notin> references (data st ! i)"
    by (rule 7)
qed

lemma method_key_valid:
  assumes inv: "pass_invariant st" and i: "i < length (data st)"
    and kind: "kind (entry_key (data st ! i)) = CXCursor_CXXMethod
             \<or> kind (entry_key (data st ! i)) = CXCursor_Constructor
             \<or> kind (entry_key (data st ! i)) = CXCursor_Destructor"
  shows "isValid (entry_key (data st ! i))"
proof (rule ccontr)
  assume "\<not> isValid (entry_key (data st ! i))"
  from pass_invariant_parts(4) [OF inv i this]
  have "kind (entry_key (data st ! i)) = CXCursor_FirstInvalid"
    by (simp add: CursorKey_null_def)
  with kind show False by (simp add: CXCursorKind_defs)
qed

lemma pass_invariant_set_reference:
  assumes inv: "pass_invariant st" and i: "i < length (data st)"
    and d: "seen st k = Some d" and di: "d \<noteq> i"
    and kind: "kind (entry_key (data st ! i)) = CXCursor_CXXMethod
             \<or> kind (entry_key (data st ! i)) = CXCursor_Constructor
             \<or> kind (entry_key (data st ! i)) = CXCursor_Destructor"
  shows "pass_invariant (st \<lparr> data := (data st)
                [d := (data st ! d) \<lparr> reference := DataEntry.cursor (data st ! i) \<rparr>] \<rparr>)"
    (is "pass_invariant ?st'")
proof -
  note p = pass_invariant_parts [OF inv]
  have dn: "d < length (data st)" by (rule p(1) [OF d])
  have len: "length (data ?st') = length (data st)" by simp
  have sn: "seen ?st' = seen st" by simp
  have key: "entry_key (data ?st' ! j) = entry_key (data st ! j)" for j
    using dn by (cases "j = d") simp_all
  have set: "references (data ?st' ! j) = references (data st ! j)" for j
    using dn by (cases "j = d") simp_all
  have ref: "entry_ref (data ?st' ! j) =
      (if j = d then entry_key (data st ! i) else entry_ref (data st ! j))" for j
    using dn by (cases "j = d") simp_all
  have vi: "isValid (entry_key (data st ! i))" by (rule method_key_valid [OF inv i kind])
  show ?thesis
  proof (rule pass_invariantI)
    fix k' j assume "seen ?st' k' = Some j"
    then have "seen st k' = Some j" by simp
    from p(1) [OF this] show "j < length (data ?st')" by simp
  next
    show "seen ?st' (locationKey CursorKey_null) = None" using p(2) by simp
  next
    fix j assume "j < length (data ?st')" and "isValid (entry_key (data ?st' ! j))"
    then have "j < length (data st)" and "isValid (entry_key (data st ! j))"
      unfolding key len by simp_all
    from p(3) [OF this] show "seen ?st' (locationKey (entry_key (data ?st' ! j))) = Some j"
      unfolding key sn .
  next
    fix j assume "j < length (data ?st')" and "\<not> isValid (entry_key (data ?st' ! j))"
    then have "j < length (data st)" and "\<not> isValid (entry_key (data st ! j))"
      unfolding key len by simp_all
    from p(4) [OF this] show "entry_key (data ?st' ! j) = CursorKey_null"
      unfolding key .
  next
    fix j assume "j < length (data ?st')" and "\<not> isValid (entry_key (data ?st' ! j))"
    then have j: "j < length (data st)" and nv: "\<not> isValid (entry_key (data st ! j))"
      unfolding key len by simp_all
    show "entry_ref (data ?st' ! j) = CursorKey_null
          \<or> (\<exists>m < length (data ?st'). isValid (entry_key (data ?st' ! m))
                \<and> entry_ref (data ?st' ! j) = entry_key (data ?st' ! m))"
    proof (cases "j = d")
      case True
      have "i < length (data st) \<and> isValid (entry_key (data st ! i))
          \<and> entry_key (data st ! i) = entry_key (data st ! i)"
        using i vi by simp
      then have "\<exists>m < length (data st). isValid (entry_key (data st ! m))
                \<and> entry_key (data st ! i) = entry_key (data st ! m)"
        by blast
      then show ?thesis unfolding key len ref using True by simp
    next
      case False
      with p(5) [OF j nv] show ?thesis unfolding key len ref by simp
    qed
  next
    show "locations_consistent ?st'"
      using p(6) unfolding locations_consistent_nth key len .
  next
    fix j assume "j < length (data ?st')"
    then have "j < length (data st)" unfolding len .
    from p(7) [OF this]
    show "cursorKeyToString (entry_key (data ?st' ! j)) \<notin> references (data ?st' ! j)"
      unfolding key set .
  qed
qed

lemma distinct_location_strings:
  assumes inv: "pass_invariant st" and i: "i < length (data st)"
    and r: "seen st (locationKey (entry_ref (data st ! i))) = Some r" and ri: "r \<noteq> i"
  shows "cursorKeyToString (entry_key (data st ! i))
           \<noteq> cursorKeyToString (entry_key (data st ! r))"
proof
  note p = pass_invariant_parts [OF inv]
  have rn: "r < length (data st)" by (rule p(1) [OF r])
  assume "cursorKeyToString (entry_key (data st ! i))
           = cursorKeyToString (entry_key (data st ! r))"
  from cursorKeyToString_inj [OF this]
  have f: "fileName (entry_key (data st ! i)) = fileName (entry_key (data st ! r))"
    and lc: "fileName (entry_key (data st ! i)) = fileName (entry_key (data st ! r))
        \<and> line (entry_key (data st ! i)) = line (entry_key (data st ! r))
        \<and> col (entry_key (data st ! i)) = col (entry_key (data st ! r))"
    by simp_all
  show False
  proof (cases "isValid (entry_key (data st ! i))")
    case vi: True
    show False
    proof (cases "isValid (entry_key (data st ! r))")
      case vr: True
      from p(6) [unfolded locations_consistent_nth] i rn lc
      have "off (entry_key (data st ! i)) = off (entry_key (data st ! r))" by blast
      with f have "locationKey (entry_key (data st ! i)) = locationKey (entry_key (data st ! r))"
        by (simp add: locationKey_def)
      with p(3) [OF i vi] p(3) [OF rn vr] ri show False by simp
    next
      case False
      from p(4) [OF rn this] have "fileName (entry_key (data st ! r)) = []"
        by (simp add: CursorKey_null_def)
      with f vi show False by (simp add: isValid_def)
    qed
  next
    case ni: False
    show False
    proof (cases "isValid (entry_key (data st ! r))")
      case vr: True
      from p(4) [OF i ni] have "fileName (entry_key (data st ! i)) = []"
        by (simp add: CursorKey_null_def)
      with f vr show False by (simp add: isValid_def)
    next
      case nr: False
      from p(5) [OF i ni] show False
      proof
        assume "entry_ref (data st ! i) = CursorKey_null"
        with r p(2) show False by simp
      next
        assume "\<exists>m < length (data st). isValid (entry_key (data st ! m))
                \<and> entry_ref (data st ! i) = entry_key (data st ! m)"
        then obtain m where m: "m < length (data st)" "isValid (entry_key (data st ! m))"
          "entry_ref (data st ! i) = entry_key (data st ! m)" by blast
        from p(3) [OF m(1,2)] r m(3) have "r = m" by simp
        with m(2) nr show False by simp
      qed
    qed
  qed
qed

lemma pass_invariant_insert:
  assumes inv: "pass_invariant st" and i: "i < length (data st)"
    and r: "seen st (locationKey (entry_ref (data st ! i))) = Some r" and ri: "r \<noteq> i"
  shows "pass_invariant (st \<lparr> data := (data st)
                [r := (data st ! r) \<lparr> references :=
                   insert (cursorKeyToString (entry_key (data st ! i)))
                     (references (data st ! r)) \<rparr>] \<rparr>)"
    (is "pass_invariant ?st'")
proof -
  note p = pass_invariant_parts [OF inv]
  have rn: "r < length (data st)" by (rule p(1) [OF r])
  have len: "length (data ?st') = length (data st)" by simp
  have sn: "seen ?st' = seen st" by simp
  have key: "entry_key (data ?st' ! j) = entry_key (data st ! j)" for j
    using rn by (cases "j = r") simp_all
  have ref: "entry_ref (data ?st' ! j) = entry_ref (data st ! j)" for j
    using rn by (cases "j = r") simp_all
  have set: "references (data ?st' ! j) =
      (if j = r then insert (cursorKeyToString (entry_key (data st ! i)))
                       (references (data st ! r))
       else references (data st ! j))" for j
    using rn by (cases "j = r") simp_all
  show ?thesis
  proof (rule pass_invariantI)
    fix k' j assume "seen ?st' k' = Some j"
    then have "seen st k' = Some j" by simp
    from p(1) [OF this] show "j < length (data ?st')" by simp
  next
    show "seen ?st' (locationKey CursorKey_null) = None" using p(2) by simp
  next
    fix j assume "j < length (data ?st')" and "isValid (entry_key (data ?st' ! j))"
    then have "j < length (data st)" and "isValid (entry_key (data st ! j))"
      unfolding key len by simp_all
    from p(3) [OF this] show "seen ?st' (locationKey (entry_key (data ?st' ! j))) = Some j"
      unfolding key sn .
  next
    fix j assume "j < length (data ?st')" and "\<not> isValid (entry_key (data ?st' ! j))"
    then have "j < length (data st)" and "\<not> isValid (entry_key (data st ! j))"
      unfolding key len by simp_all
    from p(4) [OF this] show "entry_key (data ?st' ! j) = CursorKey_null"
      unfolding key .
  next
    fix j assume "j < length (data ?st')" and "\<not> isValid (entry_key (data ?st' ! j))"
    then have j: "j < length (data st)" and nv: "\<not> isValid (entry_key (data st ! j))"
      unfolding key len by simp_all
    from p(5) [OF j nv]
    show "entry_ref (data ?st' ! j) = CursorKey_null
          \<or> (\<exists>m < length (data ?st'). isValid (entry_key (data ?st' ! m))
                \<and> entry_ref (data ?st' ! j) = entry_key (data ?st' ! m))"
      unfolding key len ref .
  next
    show "locations_consistent ?st'"
      using p(6) unfolding locations_consistent_nth key len .
  next
    fix j assume "j < length (data ?st')"
    then have j: "j < length (data st)" unfolding len .
    show "cursorKeyToString (entry_key (data ?st' ! j)) \<notin> references (data ?st' ! j)"
    proof (cases "j = r")
      case True
      from distinct_location_strings [OF inv i r ri] p(7) [OF rn] show ?thesis
        unfolding key set using True by simp
    next
      case False
      with p(7) [OF j] show ?thesis unfolding key set by simp
    qed
  qed
qed

lemma writeData_reference_invariant:
  assumes "pass_invariant st" and "i < length (data st)"
    and "writeData_reference i st = Inr st'"
  shows "pass_invariant st' \<and> length (data st') = length (data st)"
  using writeData_reference_cases [OF assms(3)] assms(1,2)
  by (auto intro: pass_invariant_set_reference pass_invariant_insert)

lemma writeData_references_invariant:
  assumes "pass_invariant st" and "\<forall>i \<in> set is. i < length (data st)"
    and "writeData_references is st = Inr st'"
  shows "pass_invariant st'"
  using assms
proof (induction "is" arbitrary: st)
  case Nil
  then show ?case by simp
next
  case (Cons i "is")
  from Cons.prems(3) obtain st1 where s: "writeData_reference i st = Inr st1"
    and r: "writeData_references is st1 = Inr st'"
    by (auto split: sum.splits)
  from Cons.prems(2) have i: "i < length (data st)" by simp
  from writeData_reference_invariant [OF Cons.prems(1) i s]
  have "pass_invariant st1" and "length (data st1) = length (data st)" by simp_all
  with Cons.prems(2) Cons.IH [of st1] r show ?case by simp
qed

text \<open>
  C7. After indexing any list of makefile items from the empty store, with a front end
  whose lines, columns and offsets agree, the back-reference pass of \<^verbatim>\<open>writeData\<close>
  leaves no entry with its own location string among its own back-references. A round
  for an entry whose reference resolves to the entry itself changes nothing in the
  store.
\<close>

theorem no_self_back_reference:
  assumes "makefileFileReady_all fe items CollectData_new = Inr st"
    and "locations_consistent st"
    and "writeData opens st = Inr (st', dbo)"
  shows "(\<forall>e \<in> set (data st').
            cursorKeyToString (Data.cursor (DataEntry.cursor e)) \<notin> references e)
    \<and> (\<forall>i s s'. seen s (locationKey (Data.cursor (reference (data s ! i)))) = Some i
           \<and> writeData_reference i s = Inr s' \<longrightarrow> s' = s)"
proof -
  have "store_invariant st"
    by (rule makefileFileReady_all_store_invariant [OF store_invariant_new assms(1)])
  then have p: "pass_invariant st" using assms(2) by (rule pass_invariant_start)
  have "pass_invariant st'"
  proof (cases opens)
    case True
    with assms(3) have w: "writeData_references [0 ..< length (data st)] st = Inr st'"
      by (auto simp: writeData_def Let_def split: sum.splits prod.splits)
    show ?thesis
      by (rule writeData_references_invariant [OF p _ w]) simp
  next
    case False
    with assms(3) have "st' = st" by (simp add: writeData_def)
    with p show ?thesis by simp
  qed
  then have "\<forall>e \<in> set (data st').
            cursorKeyToString (Data.cursor (DataEntry.cursor e)) \<notin> references e"
    using pass_invariant_parts(7) by (auto simp: in_set_conv_nth)
  then show ?thesis using self_reference_round by blast
qed

text \<open>
  An instance: the unit \<^verbatim>\<open>a.cpp\<close> is indexed; the pass adds the location of the
  reference to the back-references of the function, and nothing else.
\<close>

theorem no_self_back_reference_witness:
  "makefileFileReady_all clang_unit [[''a.cpp'']] CollectData_new = Inr store_indexed
   \<and> locations_consistent store_indexed
   \<and> (\<exists>dbo. writeData True store_indexed = Inr (store_written, dbo))
   \<and> references (data store_written ! 0) = {''a.cpp:3:3''}
   \<and> cursorKeyToString (Data.cursor (DataEntry.cursor (data store_written ! 0)))
         \<notin> references (data store_written ! 0)"
proof -
  have 1: "makefileFileReady_all clang_unit [[''a.cpp'']] CollectData_new = Inr store_indexed"
    by (simp add: eval_compile eval_visit eval_key clang_unit_def clang0_def f_decl_def
        f_ref_def store_indexed_def)
  have 2: "locations_consistent store_indexed"
    by (simp add: locations_consistent_def store_indexed_def)
  obtain dbo where 3: "writeData True store_indexed = Inr (store_written, dbo)"
    by (simp add: writeData_def writeData_reference_def store_indexed_def store_written_def
        eval_key upt_rec split: prod.splits)
  have 4: "references (data store_written ! 0) = {''a.cpp:3:3''}"
    by (simp add: store_written_def store_indexed_def)
  have "data store_written ! 0 \<in> set (data store_written)"
    by (simp add: store_written_def store_indexed_def)
  with no_self_back_reference [OF 1 2 3]
  have "cursorKeyToString (Data.cursor (DataEntry.cursor (data store_written ! 0)))
         \<notin> references (data store_written ! 0)"
    by blast
  with 1 2 3 4 show ?thesis by blast
qed

subsection \<open>The dictionary\<close>

lemma map_of_dict_insert:
  "map_of (dict_insert n l dct) n' =
     (if n' = n then Some (insert l (case map_of dct n of None \<Rightarrow> {} | Some locs \<Rightarrow> locs))
      else map_of dct n')"
  by (simp add: dict_insert_def update_conv')

lemma distinct_dict_insert:
  "distinct (map fst dct) \<Longrightarrow> distinct (map fst (dict_insert n l dct))"
  by (simp add: dict_insert_def distinct_update)

lemma dict_insert_same:
  "\<exists>locs. map_of (dict_insert n l dct) n = Some locs \<and> l \<in> locs"
  by (simp add: map_of_dict_insert)

lemma dict_insert_mono:
  assumes "\<exists>locs. map_of dct n = Some locs \<and> l \<in> locs"
  shows "\<exists>locs. map_of (dict_insert n' l' dct) n = Some locs \<and> l \<in> locs"
  using assms by (auto simp: map_of_dict_insert)

lemma collectDict_parents_mono:
  assumes "\<exists>locs. map_of dct n = Some locs \<and> l \<in> locs"
  shows "\<exists>locs. map_of (collectDict_parents ps name colon loc dct) n = Some locs \<and> l \<in> locs"
  using assms
proof (induction ps arbitrary: name colon dct)
  case Nil
  then show ?case by simp
next
  case (Cons cur ps)
  show ?case
    unfolding collectDict_parents.simps Let_def
    by (intro Cons.IH dict_insert_mono) (auto intro: dict_insert_mono Cons.prems)
qed

lemma collectDict_parents_distinct:
  "distinct (map fst dct) \<Longrightarrow>
     distinct (map fst (collectDict_parents ps name colon loc dct))"
proof (induction ps arbitrary: name colon dct)
  case Nil
  then show ?case by simp
next
  case (Cons cur ps)
  show ?case
    unfolding collectDict_parents.simps Let_def
    by (intro Cons.IH distinct_dict_insert) (auto intro: distinct_dict_insert Cons.prems)
qed

lemma collectDict_side_mono:
  assumes "\<exists>locs. map_of dct n = Some locs \<and> l \<in> locs"
  shows "\<exists>locs. map_of (collectDict_side d dct) n = Some locs \<and> l \<in> locs"
  unfolding collectDict_side_def Let_def
  by (auto intro!: collectDict_parents_mono dict_insert_mono assms)

lemma collectDict_side_distinct:
  "distinct (map fst dct) \<Longrightarrow> distinct (map fst (collectDict_side d dct))"
  unfolding collectDict_side_def Let_def
  by (auto intro!: collectDict_parents_distinct distinct_dict_insert)

lemma collectDict_mono:
  assumes "\<exists>locs. map_of dct n = Some locs \<and> l \<in> locs"
  shows "\<exists>locs. map_of (collectDict entry dct) n = Some locs \<and> l \<in> locs"
  unfolding collectDict_def by (intro collectDict_side_mono assms)

lemma collectDict_distinct:
  "distinct (map fst dct) \<Longrightarrow> distinct (map fst (collectDict entry dct))"
  unfolding collectDict_def by (intro collectDict_side_distinct)

lemma collectDict_sides:
  assumes "side = DataEntry.cursor entry \<or> side = reference entry"
    and "\<And>dct'. \<exists>locs. map_of (collectDict_side side dct') n = Some locs \<and> l \<in> locs"
  shows "\<exists>locs. map_of (collectDict entry dct) n = Some locs \<and> l \<in> locs"
  using assms(1)
proof
  assume s: "side = DataEntry.cursor entry"
  show ?thesis
    unfolding collectDict_def s [symmetric] by (rule collectDict_side_mono) (rule assms(2))
next
  assume s: "side = reference entry"
  show ?thesis
    unfolding collectDict_def s [symmetric] by (rule assms(2))
qed

lemma indexOf_first:
  "ch \<notin> set pre \<Longrightarrow> indexOf (pre @ ch # post) ch = int (length pre)"
proof -
  have "takeWhile (\<lambda>x. x \<noteq> ch) (pre @ ch # post) = pre" if "ch \<notin> set pre"
    using that by (induction pre) auto
  then show "ch \<notin> set pre \<Longrightarrow> indexOf (pre @ ch # post) ch = int (length pre)"
    by (simp add: indexOf_def)
qed

lemma collectDict_parents_first:
  assumes "colon = int (length bare)" and "name = bare @ rest" and "rest \<noteq> []"
  shows "(\<exists>locs. map_of (collectDict_parents (cls # ps) name colon loc dct)
                    (cls @ ''::'' @ bare) = Some locs \<and> loc \<in> locs)
       \<and> (\<exists>locs. map_of (collectDict_parents (cls # ps) name colon loc dct)
                    (cls @ ''::'' @ name) = Some locs \<and> loc \<in> locs)"
proof -
  let ?name' = "cls @ ''::'' @ name"
  let ?colon' = "colon + (int (length ?name') - int (length name))"
  have c: "colon \<noteq> - 1" using assms(1) by simp
  have n: "nat ?colon' = length (cls @ ''::'' @ bare)"
    using assms(1) by simp
  have "left ?colon' ?name' = take (length (cls @ ''::'' @ bare)) ((cls @ ''::'' @ bare) @ rest)"
    unfolding left_def n using assms(2) by simp
  also have "\<dots> = cls @ ''::'' @ bare"
    by (rule append_eq_conv_conj [THEN iffD1, THEN conjunct1, symmetric]) (rule refl)
  finally have l: "left ?colon' ?name' = cls @ ''::'' @ bare" .
  let ?d1 = "dict_insert (left ?colon' ?name') loc dct"
  let ?d2 = "dict_insert ?name' loc ?d1"
  have e: "collectDict_parents (cls # ps) name colon loc dct =
      collectDict_parents ps ?name' ?colon' loc ?d2"
    using c by (simp add: Let_def)
  have "\<exists>locs. map_of ?d2 (cls @ ''::'' @ bare) = Some locs \<and> loc \<in> locs"
    unfolding l by (rule dict_insert_mono) (rule dict_insert_same)
  moreover have "\<exists>locs. map_of ?d2 ?name' = Some locs \<and> loc \<in> locs"
    by (rule dict_insert_same)
  ultimately show ?thesis
    unfolding e by (intro conjI collectDict_parents_mono)
qed

lemma collectDict_side_method:
  assumes "kind (Data.cursor side) = CXCursor_CXXMethod"
    and "fileName (Data.cursor side) \<noteq> []"
    and "symbolName (Data.cursor side) = bare @ ''('' @ params"
    and "CHR ''('' \<notin> set bare"
    and "parentNames side = cls # outer"
    and "name \<in> {bare, bare @ ''('' @ params, cls @ ''::'' @ bare,
                   cls @ ''::'' @ bare @ ''('' @ params}"
  shows "\<exists>locs. map_of (collectDict_side side dct) name = Some locs
            \<and> cursorKeyToString (Data.cursor side) \<in> locs"
proof -
  let ?key = "Data.cursor side"
  let ?name = "symbolName ?key"
  let ?loc = "cursorKeyToString ?key"
  let ?d1 = "dict_insert ?name ?loc dct"
  let ?d2 = "dict_insert (left (int (length bare)) ?name) ?loc ?d1"
  have v: "isValid ?key" using assms(2,3) by (simp add: isValid_def)
  have i: "indexOf ?name CHR ''('' = int (length bare)"
    using assms(3,4) indexOf_first [of "CHR ''(''" bare params] by simp
  have e: "collectDict_side side dct =
      collectDict_parents (cls # outer) ?name (int (length bare)) ?loc ?d2"
    using v i assms(1,5) by (simp add: collectDict_side_def Let_def CXCursorKind_defs)
  have lb: "left (int (length bare)) ?name = bare"
    using assms(3) by (simp add: left_def)
  have p1: "\<exists>locs. map_of ?d2 bare = Some locs \<and> ?loc \<in> locs"
    using dict_insert_same [of "left (int (length bare)) ?name" ?loc ?d1] unfolding lb .
  have p2: "\<exists>locs. map_of ?d2 ?name = Some locs \<and> ?loc \<in> locs"
    by (rule dict_insert_mono) (rule dict_insert_same)
  have 34: "(\<exists>locs. map_of (collectDict_side side dct) (cls @ ''::'' @ bare) = Some locs
                \<and> ?loc \<in> locs)
       \<and> (\<exists>locs. map_of (collectDict_side side dct) (cls @ ''::'' @ ?name) = Some locs
                \<and> ?loc \<in> locs)"
    unfolding e
    by (rule collectDict_parents_first [where rest = "''('' @ params"])
       (simp_all add: assms(3))
  from assms(6) consider "name = bare" | "name = ?name" | "name = cls @ ''::'' @ bare"
    | "name = cls @ ''::'' @ ?name"
    using assms(3) by auto
  then show ?thesis
  proof cases
    case 1
    show ?thesis
      unfolding e 1 by (rule collectDict_parents_mono) (rule p1)
  next
    case 2
    show ?thesis
      unfolding e 2 by (rule collectDict_parents_mono) (rule p2)
  next
    case 3
    with 34 show ?thesis by simp
  next
    case 4
    with 34 show ?thesis by simp
  qed
qed

lemma writeData_entries_dict_mono:
  assumes "\<exists>locs. map_of dct n = Some locs \<and> l \<in> locs"
  shows "\<exists>locs. map_of (fst (snd (writeData_entries es (d, dct, ds)))) n = Some locs
           \<and> l \<in> locs"
  using assms
proof (induction es arbitrary: d dct ds)
  case Nil
  then show ?case by simp
next
  case (Cons e es)
  show ?case
    unfolding writeData_entries.simps
    by (rule Cons.IH) (rule collectDict_mono, rule Cons.prems)
qed

lemma writeData_entries_dict_has:
  assumes "e \<in> set es"
    and "\<And>dct'. \<exists>locs. map_of (collectDict e dct') n = Some locs \<and> l \<in> locs"
  shows "\<exists>locs. map_of (fst (snd (writeData_entries es (d, dct, ds)))) n = Some locs
           \<and> l \<in> locs"
  using assms(1)
proof (induction es arbitrary: d dct ds)
  case Nil
  then show ?case by simp
next
  case (Cons x es)
  show ?case
  proof (cases "e = x")
    case True
    show ?thesis
      unfolding writeData_entries.simps True [symmetric]
      by (rule writeData_entries_dict_mono) (rule assms(2))
  next
    case False
    with Cons.prems have "e \<in> set es" by simp
    then show ?thesis
      unfolding writeData_entries.simps by (rule Cons.IH)
  qed
qed

lemma writeData_entries_dict_distinct:
  "distinct (map fst dct) \<Longrightarrow>
     distinct (map fst (fst (snd (writeData_entries es (d, dct, ds)))))"
proof (induction es arbitrary: d dct ds)
  case Nil
  then show ?case by simp
next
  case (Cons e es)
  show ?case
    unfolding writeData_entries.simps
    by (rule Cons.IH) (rule collectDict_distinct, rule Cons.prems)
qed

lemma writeDict_other:
  "k \<notin> fst ` set dct \<Longrightarrow> writeDict d dct (''d:'' @ k) = d (''d:'' @ k)"
  unfolding writeDict_def
  by (induction dct arbitrary: d) auto

lemma writeDict_lookup:
  assumes "distinct (map fst dct)" and "map_of dct k = Some locs"
  shows "writeDict d dct (''d:'' @ k) = Some (Locations locs)"
  using assms
proof (induction dct arbitrary: d)
  case Nil
  then show ?case by simp
next
  case (Cons kv dct)
  obtain k' l' where kv: "kv = (k', l')" by (cases kv)
  have step: "writeDict d (kv # dct) = writeDict (d(''d:'' @ k' \<mapsto> Locations l')) dct"
    by (simp add: writeDict_def kv)
  show ?case
  proof (cases "k = k'")
    case True
    with Cons.prems have "k \<notin> fst ` set dct" and "locs = l'" by (auto simp: kv)
    then show ?thesis
      unfolding step using True writeDict_other [of k dct "d(''d:'' @ k' \<mapsto> Locations l')"]
      by simp
  next
    case False
    with Cons.prems have "distinct (map fst dct)" and "map_of dct k = Some locs"
      by (auto simp: kv)
    then show ?thesis unfolding step by (rule Cons.IH)
  qed
qed

lemma fold_writeDependencies_other:
  "fold (\<lambda>dep d'. writeDependencies d' (file dep) (arguments dep) (lastModified dep)
            (Dependencies.dependencies dep)) deps d (''d:'' @ k) = d (''d:'' @ k)"
  by (induction deps arbitrary: d) (auto simp: writeDependencies_def)

lemma writeData_dictionary:
  assumes "writeData True st = Inr (st', Some d)"
    and "entry \<in> set (data st')"
    and "\<And>dct'. \<exists>locs. map_of (collectDict entry dct') n = Some locs \<and> l \<in> locs"
  shows "\<exists>locs. d (''d:'' @ n) = Some (Locations locs) \<and> l \<in> locs"
proof -
  from assms(1) have p: "writeData_references [0 ..< length (data st)] st = Inr st'"
    by (auto simp: writeData_def Let_def split: sum.splits prod.splits)
  obtain d0 dct ds where w:
    "writeData_entries (data st') (Map.empty, [], [DS_int (int (length (data st')))])
       = (d0, dct, ds)"
    by (cases "writeData_entries (data st')
         (Map.empty, [], [DS_int (int (length (data st')))])") auto
  have dct: "dct = fst (snd (writeData_entries (data st')
       (Map.empty, [], [DS_int (int (length (data st')))])))"
    by (simp add: w)
  have dist: "distinct (map fst dct)"
    unfolding dct by (rule writeData_entries_dict_distinct) simp
  obtain locs where locs: "map_of dct n = Some locs" "l \<in> locs"
    unfolding dct using writeData_entries_dict_has [OF assms(2,3)] by blast
  have "d = (fold (\<lambda>dep d'. writeDependencies d' (file dep) (arguments dep) (lastModified dep)
            (Dependencies.dependencies dep)) (CollectData.dependencies st') (writeDict d0 dct))
          ('' '' \<mapsto> Serialized ds)"
    using assms(1) p w by (simp add: writeData_def Let_def)
  then have "d (''d:'' @ n) = writeDict d0 dct (''d:'' @ n)"
    using fold_writeDependencies_other [of "CollectData.dependencies st'" "writeDict d0 dct" n]
    by simp
  with writeDict_lookup [OF dist locs(1)] locs(2) show ?thesis by simp
qed

text \<open>
  C8. Dictionary round-trip: when a side of an entry of the finished store is a method
  with the display name \<open>bare(params)\<close> whose innermost container is \<open>cls\<close> (for
  \<^verbatim>\<open>bar(int)\<close> in the class \<^verbatim>\<open>Foo\<close>: \<^verbatim>\<open>bar\<close>, \<^verbatim>\<open>bar(int)\<close>, \<^verbatim>\<open>Foo::bar\<close> and
  \<^verbatim>\<open>Foo::bar(int)\<close>), the database that \<^verbatim>\<open>writeData\<close> writes has a dictionary record
  under each of the four names, and the location of the method is in each of them.
\<close>

theorem dictionary_round_trip:
  assumes "writeData True st = Inr (st', Some d)"
    and "entry \<in> set (data st')"
    and "side = DataEntry.cursor entry \<or> side = reference entry"
    and "kind (Data.cursor side) = CXCursor_CXXMethod"
    and "fileName (Data.cursor side) \<noteq> []"
    and "symbolName (Data.cursor side) = bare @ ''('' @ params"
    and "CHR ''('' \<notin> set bare"
    and "parentNames side = cls # outer"
  shows "\<forall>name \<in> {bare, bare @ ''('' @ params, cls @ ''::'' @ bare,
                     cls @ ''::'' @ bare @ ''('' @ params}.
           \<exists>locs. d (''d:'' @ name) = Some (Locations locs)
             \<and> cursorKeyToString (Data.cursor side) \<in> locs"
proof
  fix name
  assume n: "name \<in> {bare, bare @ ''('' @ params, cls @ ''::'' @ bare,
                     cls @ ''::'' @ bare @ ''('' @ params}"
  have "\<exists>locs. map_of (collectDict entry dct') name = Some locs
           \<and> cursorKeyToString (Data.cursor side) \<in> locs" for dct'
    by (rule collectDict_sides [OF assms(3)])
       (rule collectDict_side_method [OF assms(4-8) n])
  from writeData_dictionary [OF assms(1,2) this]
  show "\<exists>locs. d (''d:'' @ name) = Some (Locations locs)
             \<and> cursorKeyToString (Data.cursor side) \<in> locs" .
qed

text \<open>An instance: the method \<^verbatim>\<open>bar(int)\<close> of the class \<^verbatim>\<open>Foo\<close>, defined at \<^verbatim>\<open>a.cpp:9:11\<close>.\<close>

theorem dictionary_round_trip_witness:
  "collectSymbols clang0 method_def CollectData_new = Inr (CXChildVisit_Recurse, store_method)
   \<and> (\<exists>locs. (case writeData True store_method of
                  Inr (st', Some d) \<Rightarrow> d ''d:bar'' | _ \<Rightarrow> None) = Some (Locations locs)
          \<and> ''a.cpp:9:11'' \<in> locs)
   \<and> (\<exists>locs. (case writeData True store_method of
                  Inr (st', Some d) \<Rightarrow> d ''d:bar(int)'' | _ \<Rightarrow> None) = Some (Locations locs)
          \<and> ''a.cpp:9:11'' \<in> locs)
   \<and> (\<exists>locs. (case writeData True store_method of
                  Inr (st', Some d) \<Rightarrow> d ''d:Foo::bar'' | _ \<Rightarrow> None) = Some (Locations locs)
          \<and> ''a.cpp:9:11'' \<in> locs)
   \<and> (\<exists>locs. (case writeData True store_method of
                  Inr (st', Some d) \<Rightarrow> d ''d:Foo::bar(int)'' | _ \<Rightarrow> None)
            = Some (Locations locs)
          \<and> ''a.cpp:9:11'' \<in> locs)"
proof -
  have v: "collectSymbols clang0 method_def CollectData_new
      = Inr (CXChildVisit_Recurse, store_method)"
    by (simp add: eval_visit eval_key clang0_def method_def_def store_method_def)
  obtain d where w: "writeData True store_method = Inr (store_method, Some d)"
    by (simp add: writeData_def writeData_reference_def store_method_def eval_key
        split: prod.splits)
  let ?entry = "data store_method ! 0"
  have e: "?entry \<in> set (data store_method)" by (simp add: store_method_def)
  have s: "DataEntry.cursor ?entry = DataEntry.cursor ?entry \<or> DataEntry.cursor ?entry = reference ?entry"
    by simp
  have k: "kind (Data.cursor (DataEntry.cursor ?entry)) = CXCursor_CXXMethod"
    and f: "fileName (Data.cursor (DataEntry.cursor ?entry)) \<noteq> []"
    and n: "symbolName (Data.cursor (DataEntry.cursor ?entry)) = ''bar'' @ ''('' @ ''int)''"
    and b: "CHR ''('' \<notin> set ''bar''"
    and p: "parentNames (DataEntry.cursor ?entry) = ''Foo'' # []"
    by (simp_all add: store_method_def)
  have l: "cursorKeyToString (Data.cursor (DataEntry.cursor ?entry)) = ''a.cpp:9:11''"
    by (simp add: store_method_def eval_key)
  from dictionary_round_trip [OF w e s k f n b p]
  have "\<forall>name \<in> {''bar'', ''bar(int)'', ''Foo::bar'', ''Foo::bar(int)''}.
           \<exists>locs. d (''d:'' @ name) = Some (Locations locs) \<and> ''a.cpp:9:11'' \<in> locs"
    unfolding l by simp
  then show ?thesis using v w by simp
qed

subsection \<open>Entries without a valid cursor key\<close>

text \<open>
  C9, as the code has it. For an entry whose cursor key is not valid, \<^verbatim>\<open>writeEntry\<close>
  writes no record and the cursor side adds nothing to the dictionary; the reference
  side is still collected, and the entry is still serialized into the manifest.
\<close>

theorem invalid_entry_output:
  assumes "\<not> isValid (Data.cursor (DataEntry.cursor entry))"
  shows "writeEntry d entry = d
    \<and> collectDict entry dct = collectDict_side (reference entry) dct
    \<and> writeData_entries (entry # entries) (d, dct, ds) =
        writeData_entries entries
          (d, collectDict_side (reference entry) dct, ds @ ds_DataEntry entry)"
  using assms by (simp add: writeEntry_def collectDict_def collectDict_side_def Let_def)

text \<open>An instance: a new entry, whose cursor key is the null key.\<close>

theorem invalid_entry_output_witness:
  "\<not> isValid (Data.cursor (DataEntry.cursor DataEntry_new))
   \<and> writeData_entries [DataEntry_new] (Map.empty, [], [DS_int 1]) =
       (Map.empty, [],
        [DS_int 1, DS_bool False, DS_int 70, DS_bytes [], DS_bytes [],
         DS_uint 0, DS_uint 0, DS_uint 0, DS_bool False, DS_names [], DS_set {}, DS_set {}])"
proof -
  have v: "\<not> isValid (Data.cursor (DataEntry.cursor DataEntry_new))"
    by (simp add: DataEntry_new_def Data_new_def CursorKey_null_def isValid_def)
  from invalid_entry_output [OF v, of Map.empty "[]" "[]" "[DS_int 1]"]
  have "writeData_entries [DataEntry_new] (Map.empty, [], [DS_int 1]) =
        (Map.empty, collectDict_side (reference DataEntry_new) [],
          [DS_int 1] @ ds_DataEntry DataEntry_new)"
    by simp
  then show ?thesis
    using v
    by (simp add: collectDict_side_def DataEntry_new_def Data_new_def CursorKey_null_def
        isValid_def ds_DataEntry_def ds_Data_def ds_CursorKey_def CXCursorKind_defs)
qed

text \<open>
  C9, as it is stated, fails: the visit of a declaration for which the front end finds
  no referenced cursor leaves an entry whose cursor key is not valid, and
  \<^verbatim>\<open>writeData\<close> counts and serializes this entry in the record under the key of a
  single space.
\<close>

theorem invalid_entry_in_manifest_counterexample:
  "collectSymbols clang_none
      (Cursor CXCursor_FunctionDecl ''a.cpp'' 1 6 5 ''f()'' False NullCursor) CollectData_new
     = Inr (CXChildVisit_Recurse,
         \<lparr> seen = [''a.cpp:5'' \<mapsto> 0], data = [DataEntry_new], CollectData.dependencies = [] \<rparr>)
   \<and> \<not> isValid (Data.cursor (DataEntry.cursor DataEntry_new))
   \<and> writeData True
        \<lparr> seen = [''a.cpp:5'' \<mapsto> 0], data = [DataEntry_new], CollectData.dependencies = [] \<rparr>
     = Inr (\<lparr> seen = [''a.cpp:5'' \<mapsto> 0], data = [DataEntry_new],
             CollectData.dependencies = [] \<rparr>,
            Some ['' '' \<mapsto> Serialized
              [DS_int 1, DS_bool False, DS_int 70, DS_bytes [], DS_bytes [],
               DS_uint 0, DS_uint 0, DS_uint 0, DS_bool False, DS_names [],
               DS_set {}, DS_set {}]])"
  by (simp add: eval_visit eval_write eval_key clang_none_def clang0_def)

subsection \<open>The inclusion walker\<close>

lemma setDependency_keys:
  "fst ` set (Dependencies.dependencies (setDependency fe f deps)) =
     insert (Path_resolved fe f) (fst ` set (Dependencies.dependencies deps))"
  by (simp add: setDependency_def Let_def dom_update)

lemma setDependency_file: "file (setDependency fe f deps) = file deps"
  by (simp add: setDependency_def Let_def)

lemma fold_setDependency_keys:
  "fst ` set (Dependencies.dependencies (fold (setDependency fe) fs deps)) =
     Path_resolved fe ` set fs \<union> fst ` set (Dependencies.dependencies deps)"
  by (induction fs arbitrary: deps) (auto simp: setDependency_keys)

lemma fold_setDependency_file: "file (fold (setDependency fe) fs deps) = file deps"
  by (induction fs arbitrary: deps) (auto simp: setDependency_file)

lemma getInclusions_keys:
  "fst ` set (Dependencies.dependencies (getInclusions fe f stack deps)) =
     (if stack = [] then {} else Path_resolved fe ` insert f (set (butlast stack)))
       \<union> fst ` set (Dependencies.dependencies deps)"
  by (auto simp: getInclusions_def Let_def fold_setDependency_keys setDependency_keys
      butlast_conv_take)

lemma getInclusions_file: "file (getInclusions fe f stack deps) = file deps"
  by (simp add: getInclusions_def Let_def fold_setDependency_file setDependency_file)

lemma fold_getInclusions_keys:
  "fst ` set (Dependencies.dependencies
       (fold (\<lambda>(f, stack). getInclusions fe f stack) incs deps)) =
     (\<Union>(f, stack) \<in> set incs.
         if stack = [] then {} else Path_resolved fe ` insert f (set (butlast stack)))
       \<union> fst ` set (Dependencies.dependencies deps)"
proof (induction incs arbitrary: deps)
  case Nil
  then show ?case by simp
next
  case (Cons i incs)
  obtain f stack where i: "i = (f, stack)" by (cases i)
  show ?case
    unfolding i by (simp add: Cons.IH getInclusions_keys) blast
qed

lemma fold_getInclusions_file:
  "file (fold (\<lambda>(f, stack). getInclusions fe f stack) incs deps) = file deps"
  by (induction incs arbitrary: deps) (auto simp: getInclusions_file)

text \<open>
  C10, as the code has it. For an input file that parses, \<^verbatim>\<open>compile\<close> appends one
  record, whose file is the input. Its keys are the resolved paths of every file that
  the front end reports with a non-empty inclusion stack and of every file on such a
  stack but the last one. So the path of the translation unit is a key of its own record
  exactly when the front end reports it in one of these places, as it does for a file
  that is included again by itself or by one of its headers.
\<close>

theorem compile_input_dependencies:
  assumes "clang_parseTranslationUnit fe inp args = Some unit"
    and "compile_input fe args inp st = Inr st'"
  shows "\<exists>dep. CollectData.dependencies st' = CollectData.dependencies st @ [dep]
    \<and> file dep = inp
    \<and> fst ` set (Dependencies.dependencies dep) =
        (\<Union>(f, stack) \<in> set (inclusions unit).
           if stack = [] then {} else Path_resolved fe ` insert f (set (butlast stack)))
    \<and> (inp \<in> fst ` set (Dependencies.dependencies dep) \<longleftrightarrow>
         (\<exists>(f, stack) \<in> set (inclusions unit).
            stack \<noteq> [] \<and> inp \<in> Path_resolved fe ` insert f (set (butlast stack))))"
proof -
  from assms obtain b st1 where v: "visitChildren fe (unitChildren unit) st = Inr (b, st1)"
    by (auto simp: compile_input_def split: sum.splits)
  let ?deps = "\<lparr> file = inp, arguments = args, lastModified = Path_lastModified fe inp,
                 Dependencies.dependencies = [] \<rparr>"
  let ?dep = "fold (\<lambda>(f, stack). getInclusions fe f stack) (inclusions unit) ?deps"
  let ?U = "\<Union>(f, stack) \<in> set (inclusions unit).
           if stack = [] then {} else Path_resolved fe ` insert f (set (butlast stack))"
  have "st' = st1 \<lparr> CollectData.dependencies := CollectData.dependencies st1 @ [?dep] \<rparr>"
    using assms v by (simp add: compile_input_def Let_def)
  then have 1: "CollectData.dependencies st' = CollectData.dependencies st @ [?dep]"
    using visitChildren_dependencies [OF v] by simp
  have 2: "file ?dep = inp" by (simp add: fold_getInclusions_file)
  have 3: "fst ` set (Dependencies.dependencies ?dep) = ?U"
    by (simp add: fold_getInclusions_keys)
  have "inp \<in> ?U \<longleftrightarrow> (\<exists>(f, stack) \<in> set (inclusions unit).
            stack \<noteq> [] \<and> inp \<in> Path_resolved fe ` insert f (set (butlast stack)))"
    by (fastforce split: if_splits)
  then have 4: "inp \<in> fst ` set (Dependencies.dependencies ?dep) \<longleftrightarrow>
         (\<exists>(f, stack) \<in> set (inclusions unit).
            stack \<noteq> [] \<and> inp \<in> Path_resolved fe ` insert f (set (butlast stack)))"
    unfolding 3 .
  show ?thesis
    by (rule exI [of _ ?dep]) (intro conjI 1 2 3 4)
qed

text \<open>
  An instance: \<^verbatim>\<open>a.cpp\<close> includes \<^verbatim>\<open>a.h\<close>, which includes \<^verbatim>\<open>b.h\<close>; the record of
  \<^verbatim>\<open>a.cpp\<close> has the two headers as keys and not \<^verbatim>\<open>a.cpp\<close>.
\<close>

theorem compile_input_dependencies_witness:
  "clang_parseTranslationUnit clang_includes ''a.cpp'' [] =
     Some \<lparr> unitChildren = [],
            inclusions = [(''a.cpp'', []), (''a.h'', [''a.cpp'']),
                          (''b.h'', [''a.h'', ''a.cpp''])] \<rparr>
   \<and> compile_input clang_includes [] ''a.cpp'' CollectData_new =
     Inr (CollectData_new \<lparr> CollectData.dependencies :=
       [\<lparr> file = ''a.cpp'', arguments = [], lastModified = 0,
          Dependencies.dependencies = [(''a.h'', 0), (''b.h'', 0)] \<rparr>] \<rparr>)
   \<and> ''a.cpp'' \<notin> fst ` set [(''a.h'', 0 :: time_t), (''b.h'', 0)]"
proof -
  have p: "clang_parseTranslationUnit clang_includes ''a.cpp'' [] =
     Some \<lparr> unitChildren = [],
            inclusions = [(''a.cpp'', []), (''a.h'', [''a.cpp'']),
                          (''b.h'', [''a.h'', ''a.cpp''])] \<rparr>"
    by (simp add: clang_includes_def clang0_def)
  have c: "compile_input clang_includes [] ''a.cpp'' CollectData_new =
     Inr (CollectData_new \<lparr> CollectData.dependencies :=
       [\<lparr> file = ''a.cpp'', arguments = [], lastModified = 0,
          Dependencies.dependencies = [(''a.h'', 0), (''b.h'', 0)] \<rparr>] \<rparr>)"
    by (simp add: compile_input_def clang_includes_def clang0_def CollectData_new_def
        getInclusions_def setDependency_def Let_def)
  from compile_input_dependencies [OF p c]
  have "''a.cpp'' \<notin> fst ` set [(''a.h'', 0 :: time_t), (''b.h'', 0)]"
    by (simp add: CollectData_new_def clang_includes_def clang0_def)
  with p c show ?thesis by blast
qed

text \<open>
  C10, as it is stated, fails for a unit whose header includes the file of the unit
  again: the second report of \<^verbatim>\<open>self.cpp\<close> has a stack of two files, and the path of
  the unit becomes a key of its own record.
\<close>

theorem compile_input_own_path_counterexample:
  "compile_input clang_includes [] ''self.cpp'' CollectData_new =
     Inr (CollectData_new \<lparr> CollectData.dependencies :=
       [\<lparr> file = ''self.cpp'', arguments = [], lastModified = 0,
          Dependencies.dependencies = [(''a.h'', 0), (''self.cpp'', 0)] \<rparr>] \<rparr>)"
  by (simp add: compile_input_def clang_includes_def clang0_def CollectData_new_def
      getInclusions_def setDependency_def Let_def)

subsection \<open>The staleness scan\<close>

lemma updateDB_included_dom:
  "dom (updateDB_included fe inc dirty) =
     dom dirty \<union> {k. \<exists>v. (k, v) \<in> set inc \<and> Path_lastModified fe k \<noteq> v}"
proof (induction inc arbitrary: dirty)
  case Nil
  then show ?case by simp
next
  case (Cons kv inc)
  obtain k v where kv: "kv = (k, v)" by (cases kv)
  show ?case
    unfolding kv updateDB_included.simps Cons.IH
    by (cases "dirty k") auto
qed

lemma updateDB_included_old:
  "dirty p = Some a \<Longrightarrow> updateDB_included fe inc dirty p = Some a"
proof (induction inc arbitrary: dirty)
  case Nil
  then show ?case by simp
next
  case (Cons kv inc)
  obtain k v where kv: "kv = (k, v)" by (cases kv)
  let ?d = "if dirty k = None \<and> Path_lastModified fe k \<noteq> v then dirty(k \<mapsto> []) else dirty"
  have "?d p = Some a" using Cons.prems by auto
  from Cons.IH [of ?d, OF this] show ?case by (simp add: kv)
qed

lemma updateDB_included_new:
  "updateDB_included fe inc dirty p = Some a \<Longrightarrow> dirty p = Some a \<or> a = []"
proof (induction inc arbitrary: dirty)
  case Nil
  then show ?case by simp
next
  case (Cons kv inc)
  obtain k v where kv: "kv = (k, v)" by (cases kv)
  let ?d = "if dirty k = None \<and> Path_lastModified fe k \<noteq> v then dirty(k \<mapsto> []) else dirty"
  have "updateDB_included fe inc ?d p = Some a" using Cons.prems by (simp add: kv)
  from Cons.IH [of ?d, OF this] show ?case by (auto split: if_splits)
qed

lemma updateDB_scan_deps:
  "snd (updateDB_scan fe recs (dirty, deps)) =
     deps @ map (\<lambda>(key, v). updateDB_record fe key v)
              (takeWhile (\<lambda>(key, v). take 2 (Slice_data fe key) = ''f:'') recs)"
  by (induction recs arbitrary: dirty deps) (auto simp: Let_def)

lemma updateDB_scan_dom:
  "dom (fst (updateDB_scan fe recs (dirty, deps))) =
     dom dirty \<union> {p. \<exists>dep \<in> set (map (\<lambda>(key, v). updateDB_record fe key v)
          (takeWhile (\<lambda>(key, v). take 2 (Slice_data fe key) = ''f:'') recs)).
        (p = file dep \<and> lastModified dep \<noteq> Path_lastModified fe p)
        \<or> (\<exists>t. (p, t) \<in> set (Dependencies.dependencies dep) \<and> Path_lastModified fe p \<noteq> t)}"
proof (induction recs arbitrary: dirty deps)
  case Nil
  then show ?case by simp
next
  case (Cons kv recs)
  obtain key v where kv: "kv = (key, v)" by (cases kv)
  show ?case
  proof (cases "take 2 (Slice_data fe key) = ''f:''")
    case False
    then show ?thesis by (simp add: kv)
  next
    case True
    show ?thesis
      using True
      by (simp add: kv Cons.IH updateDB_included_dom Let_def) (auto split: if_splits)
  qed
qed

lemma updateDB_scan_values:
  assumes "fst (updateDB_scan fe recs (dirty, deps)) p = Some a"
  shows "dirty p = Some a \<or> a = []
     \<or> (\<exists>dep \<in> set (map (\<lambda>(key, v). updateDB_record fe key v)
          (takeWhile (\<lambda>(key, v). take 2 (Slice_data fe key) = ''f:'') recs)).
          p = file dep \<and> a = arguments dep \<and> lastModified dep \<noteq> Path_lastModified fe p)"
  using assms
proof (induction recs arbitrary: dirty deps)
  case Nil
  then show ?case by simp
next
  case (Cons kv recs)
  obtain key v where kv: "kv = (key, v)" by (cases kv)
  show ?case
  proof (cases "take 2 (Slice_data fe key) = ''f:''")
    case False
    with Cons.prems show ?thesis by (simp add: kv)
  next
    case True
    let ?dep = "updateDB_record fe key v"
    let ?d1 = "if lastModified ?dep \<noteq> Path_lastModified fe (file ?dep)
                then dirty(file ?dep \<mapsto> arguments ?dep) else dirty"
    let ?d2 = "updateDB_included fe (Dependencies.dependencies ?dep) ?d1"
    have "fst (updateDB_scan fe recs (?d2, deps @ [?dep])) p = Some a"
      using Cons.prems True by (simp add: kv Let_def)
    from Cons.IH [OF this] consider "?d2 p = Some a" | "a = []"
      | "\<exists>dep \<in> set (map (\<lambda>(key, v). updateDB_record fe key v)
          (takeWhile (\<lambda>(key, v). take 2 (Slice_data fe key) = ''f:'') recs)).
          p = file dep \<and> a = arguments dep \<and> lastModified dep \<noteq> Path_lastModified fe p"
      by blast
    then show ?thesis
    proof cases
      case 1
      from updateDB_included_new [OF this] show ?thesis
        using True by (auto simp: kv split: if_splits)
    next
      case 2
      then show ?thesis by simp
    next
      case 3
      then show ?thesis using True by (auto simp: kv)
    qed
  qed
qed

lemma updateDB_scan_keep:
  assumes "dirty p = Some a"
    and "\<forall>(k, v) \<in> set (takeWhile (\<lambda>(key, v). take 2 (Slice_data fe key) = ''f:'') recs).
           file (updateDB_record fe k v) \<noteq> p"
  shows "fst (updateDB_scan fe recs (dirty, deps)) p = Some a"
  using assms
proof (induction recs arbitrary: dirty deps)
  case Nil
  then show ?case by simp
next
  case (Cons kv recs)
  obtain key v where kv: "kv = (key, v)" by (cases kv)
  show ?case
  proof (cases "take 2 (Slice_data fe key) = ''f:''")
    case False
    with Cons.prems show ?thesis by (simp add: kv)
  next
    case True
    let ?dep = "updateDB_record fe key v"
    let ?d1 = "if lastModified ?dep \<noteq> Path_lastModified fe (file ?dep)
                then dirty(file ?dep \<mapsto> arguments ?dep) else dirty"
    let ?d2 = "updateDB_included fe (Dependencies.dependencies ?dep) ?d1"
    from Cons.prems(2) True have ne: "file ?dep \<noteq> p"
      and rest: "\<forall>(k, v) \<in> set (takeWhile (\<lambda>(key, v). take 2 (Slice_data fe key) = ''f:'') recs).
                   file (updateDB_record fe k v) \<noteq> p"
      by (auto simp: kv)
    from Cons.prems(1) ne have "?d1 p = Some a" by simp
    then have "?d2 p = Some a" by (rule updateDB_included_old)
    from Cons.IH [of ?d2 "deps @ [?dep]", OF this rest] show ?thesis
      using True by (simp add: kv Let_def)
  qed
qed

lemma updateDB_scan_owner:
  assumes "distinct (map (\<lambda>(key, v). file (updateDB_record fe key v))
              (takeWhile (\<lambda>(key, v). take 2 (Slice_data fe key) = ''f:'') recs))"
    and "(key, v) \<in> set (takeWhile (\<lambda>(key, v). take 2 (Slice_data fe key) = ''f:'') recs)"
    and "lastModified (updateDB_record fe key v)
           \<noteq> Path_lastModified fe (file (updateDB_record fe key v))"
  shows "fst (updateDB_scan fe recs (dirty, deps)) (file (updateDB_record fe key v))
           = Some (arguments (updateDB_record fe key v))"
  using assms
proof (induction recs arbitrary: dirty deps)
  case Nil
  then show ?case by simp
next
  case (Cons kv recs)
  obtain k0 v0 where kv: "kv = (k0, v0)" by (cases kv)
  from Cons.prems(2) have p0: "take 2 (Slice_data fe k0) = ''f:''"
    by (auto simp: kv split: if_splits)
  let ?rest = "takeWhile (\<lambda>(key, v). take 2 (Slice_data fe key) = ''f:'') recs"
  let ?dep = "updateDB_record fe k0 v0"
  let ?d1 = "if lastModified ?dep \<noteq> Path_lastModified fe (file ?dep)
              then dirty(file ?dep \<mapsto> arguments ?dep) else dirty"
  let ?d2 = "updateDB_included fe (Dependencies.dependencies ?dep) ?d1"
  have step: "updateDB_scan fe (kv # recs) (dirty, deps) =
      updateDB_scan fe recs (?d2, deps @ [?dep])"
    using p0 by (simp add: kv Let_def)
  from Cons.prems(1) p0
  have fresh: "file ?dep \<notin> (\<lambda>(key, v). file (updateDB_record fe key v)) ` set ?rest"
    and dist: "distinct (map (\<lambda>(key, v). file (updateDB_record fe key v)) ?rest)"
    by (simp_all add: kv)
  show ?case
  proof (cases "(key, v) = (k0, v0)")
    case True
    then have kk: "key = k0" "v = v0" by simp_all
    have "?d1 (file ?dep) = Some (arguments ?dep)"
      using Cons.prems(3) by (simp add: kk)
    then have d2: "?d2 (file ?dep) = Some (arguments ?dep)" by (rule updateDB_included_old)
    from fresh have "\<forall>(k, v) \<in> set ?rest. file (updateDB_record fe k v) \<noteq> file ?dep"
      by force
    from updateDB_scan_keep [of ?d2, OF d2 this] show ?thesis
      unfolding step kk .
  next
    case False
    with Cons.prems(2) p0 have "(key, v) \<in> set ?rest"
      by (auto simp: kv)
    with dist show ?thesis
      unfolding step using Cons.prems(3) by (intro Cons.IH)
  qed
qed

text \<open>
  When nothing lies behind the key but the NUL that ends it, and no NUL is inside the
  key, the file of a record is the key without its first two bytes.
\<close>

lemma updateDB_record_file:
  assumes "Slice_after fe key = []" and "CHR 0x00 \<notin> set key"
  shows "file (updateDB_record fe key v) = drop 2 key"
proof -
  have "CHR 0x00 \<notin> set (drop 2 key)"
    using assms(2) in_set_dropD by fast
  then have "takeWhile (\<lambda>c. c \<noteq> CHR 0x00) (drop 2 key) = drop 2 key"
    by (intro takeWhile_eq_all_conv [THEN iffD2]) auto
  then show ?thesis
    using assms(1) by (simp add: updateDB_record_def Slice_data_def c_str_def split: prod.splits)
qed

text \<open>
  C1, as the code has it. The scan reads the records from \<^verbatim>\<open>Seek("f:")\<close> on, as long
  as the memory of the key begins with \<^verbatim>\<open>f:\<close>, and appends them to the dependencies of
  the store; the file of a record is the C string read behind these two bytes. A path
  is in the dirty set exactly when it is the file of a scanned record whose own
  modification time differs from the stored one, or an included file of a scanned
  record whose modification time differs from the one stored for it there: the included
  file itself is marked, not the file of the record that lists it. The arguments of a
  dirty path are the stored arguments of a changed record of that file, or empty; they
  are the stored arguments of the record when the path is the file of a record that
  changed and no two scanned records have the same file.
\<close>

theorem updateDB_dirty_set:
  assumes "updateDB fe (Some records) st = (ok, st', dirty)"
  shows "\<exists>scanned.
      scanned = map (\<lambda>(key, v). updateDB_record fe key v)
                  (takeWhile (\<lambda>(key, v). take 2 (Slice_data fe key) = ''f:'') (Seek ''f:'' records))
    \<and> CollectData.dependencies st' = CollectData.dependencies st @ scanned
    \<and> dom dirty = {p. \<exists>dep \<in> set scanned.
         (p = file dep \<and> lastModified dep \<noteq> Path_lastModified fe p)
         \<or> (\<exists>t. (p, t) \<in> set (Dependencies.dependencies dep) \<and> Path_lastModified fe p \<noteq> t)}
    \<and> (\<forall>p a. dirty p = Some a \<longrightarrow> a = []
         \<or> (\<exists>dep \<in> set scanned. p = file dep \<and> a = arguments dep
               \<and> lastModified dep \<noteq> Path_lastModified fe p))
    \<and> (distinct (map file scanned) \<longrightarrow>
         (\<forall>dep \<in> set scanned. lastModified dep \<noteq> Path_lastModified fe (file dep)
            \<longrightarrow> dirty (file dep) = Some (arguments dep)))"
proof -
  let ?recs = "Seek ''f:'' records"
  let ?res = "updateDB_scan fe ?recs (Map.empty, CollectData.dependencies st)"
  let ?scanned = "map (\<lambda>(key, v). updateDB_record fe key v)
                  (takeWhile (\<lambda>(key, v). take 2 (Slice_data fe key) = ''f:'') ?recs)"
  have d: "dirty = fst ?res" and s: "CollectData.dependencies st' = snd ?res"
    using assms by (auto simp: updateDB_def Let_def split: prod.splits option.splits)
  have 1: "CollectData.dependencies st' = CollectData.dependencies st @ ?scanned"
    unfolding s by (simp add: updateDB_scan_deps)
  have 2: "dom dirty = {p. \<exists>dep \<in> set ?scanned.
         (p = file dep \<and> lastModified dep \<noteq> Path_lastModified fe p)
         \<or> (\<exists>t. (p, t) \<in> set (Dependencies.dependencies dep) \<and> Path_lastModified fe p \<noteq> t)}"
    unfolding d by (simp add: updateDB_scan_dom)
  have 3: "\<forall>p a. dirty p = Some a \<longrightarrow> a = []
         \<or> (\<exists>dep \<in> set ?scanned. p = file dep \<and> a = arguments dep
               \<and> lastModified dep \<noteq> Path_lastModified fe p)"
    unfolding d
    using updateDB_scan_values [of fe ?recs Map.empty "CollectData.dependencies st"]
    by simp
  have 4: "dirty (file dep) = Some (arguments dep)"
    if dist: "distinct (map file ?scanned)" and dep: "dep \<in> set ?scanned"
      and ch: "lastModified dep \<noteq> Path_lastModified fe (file dep)" for dep
  proof -
    from dep obtain key v
      where kv: "(key, v) \<in> set (takeWhile (\<lambda>(key, v). take 2 (Slice_data fe key) = ''f:'') ?recs)"
        and e: "dep = updateDB_record fe key v"
      by auto
    have m: "map file ?scanned = map (\<lambda>(key, v). file (updateDB_record fe key v))
               (takeWhile (\<lambda>(key, v). take 2 (Slice_data fe key) = ''f:'') ?recs)"
      by (simp add: case_prod_unfold comp_def)
    from dist have "distinct (map (\<lambda>(key, v). file (updateDB_record fe key v))
               (takeWhile (\<lambda>(key, v). take 2 (Slice_data fe key) = ''f:'') ?recs))"
      unfolding m .
    from updateDB_scan_owner [OF this kv] ch
    show ?thesis unfolding d e by simp
  qed
  show ?thesis
    by (rule exI [of _ ?scanned]) (use 1 2 3 4 in blast)
qed

text \<open>
  Two instances, where \<^verbatim>\<open>a.h\<close> is now at time 2: \<^verbatim>\<open>a.cpp\<close> was recorded at time 1
  with the included file \<^verbatim>\<open>a.h\<close> at time 1, which makes \<^verbatim>\<open>a.h\<close> dirty with no
  arguments; \<^verbatim>\<open>a.h\<close> was recorded at time 1 with the argument \<^verbatim>\<open>-x\<close>, which makes
  it dirty with this argument.
\<close>

theorem updateDB_dirty_set_witness:
  "updateDB clang_touched
      (Some [('' '', Serialized [DS_int 0]),
             (''f:a.cpp'', Serialized [DS_args [''-I.''], DS_time 1, DS_deps [(''a.h'', 1)]])])
      CollectData_new
    = (True,
       CollectData_new \<lparr> CollectData.dependencies :=
         [\<lparr> file = ''a.cpp'', arguments = [''-I.''], lastModified = 1,
            Dependencies.dependencies = [(''a.h'', 1)] \<rparr>] \<rparr>,
       [''a.h'' \<mapsto> []])
   \<and> dom [''a.h'' \<mapsto> ([] :: GccArguments)] = {''a.h''}
   \<and> snd (snd (updateDB clang_touched
      (Some [(''f:a.h'', Serialized [DS_args [''-x''], DS_time 1, DS_deps []])])
      CollectData_new)) ''a.h'' = Some [''-x'']"
proof -
  have e: "updateDB clang_touched
      (Some [('' '', Serialized [DS_int 0]),
             (''f:a.cpp'', Serialized [DS_args [''-I.''], DS_time 1, DS_deps [(''a.h'', 1)]])])
      CollectData_new
    = (True,
       CollectData_new \<lparr> CollectData.dependencies :=
         [\<lparr> file = ''a.cpp'', arguments = [''-I.''], lastModified = 1,
            Dependencies.dependencies = [(''a.h'', 1)] \<rparr>] \<rparr>,
       [''a.h'' \<mapsto> []])"
    by (simp add: eval_db clang_touched_def clang0_def CollectData_new_def DataEntry_new_def)
  from updateDB_dirty_set [OF e]
  have "dom [''a.h'' \<mapsto> ([] :: GccArguments)] =
     {p. \<exists>dep \<in> set (map (\<lambda>(key, v). updateDB_record clang_touched key v)
                  (takeWhile (\<lambda>(key, v). take 2 (Slice_data clang_touched key) = ''f:'') (Seek ''f:''
          [('' '', Serialized [DS_int 0]),
             (''f:a.cpp'', Serialized [DS_args [''-I.''], DS_time 1, DS_deps [(''a.h'', 1)]])]))).
         (p = file dep \<and> lastModified dep \<noteq> Path_lastModified clang_touched p)
         \<or> (\<exists>t. (p, t) \<in> set (Dependencies.dependencies dep)
               \<and> Path_lastModified clang_touched p \<noteq> t)}"
    by blast
  also have "\<dots> = {''a.h''}"
    by (auto simp: eval_db clang_touched_def clang0_def)
  finally have 1: "dom [''a.h'' \<mapsto> ([] :: GccArguments)] = {''a.h''}" .
  let ?recs = "[(''f:a.h'', Serialized [DS_args [''-x''], DS_time 1, DS_deps []])]"
  let ?dep = "\<lparr> file = ''a.h'', arguments = [''-x''], lastModified = 1,
                Dependencies.dependencies = [] \<rparr>"
  obtain ok st' dirty where u: "updateDB clang_touched (Some ?recs) CollectData_new
      = (ok, st', dirty)"
    by (cases "updateDB clang_touched (Some ?recs) CollectData_new") blast
  have sc: "map (\<lambda>(key, v). updateDB_record clang_touched key v)
      (takeWhile (\<lambda>(key, v). take 2 (Slice_data clang_touched key) = ''f:'')
         (Seek ''f:'' ?recs)) = [?dep]"
    by (simp add: eval_db clang_touched_def clang0_def)
  have ch: "lastModified ?dep \<noteq> Path_lastModified clang_touched (file ?dep)"
    by (simp add: clang_touched_def)
  from updateDB_dirty_set [OF u] have
    "distinct (map file [?dep]) \<longrightarrow>
       (\<forall>dep \<in> set [?dep]. lastModified dep \<noteq> Path_lastModified clang_touched (file dep)
            \<longrightarrow> dirty (file dep) = Some (arguments dep))"
    unfolding sc by blast
  with ch have "dirty ''a.h'' = Some [''-x'']" by simp
  with u have 2: "snd (snd (updateDB clang_touched (Some ?recs) CollectData_new)) ''a.h''
      = Some [''-x'']" by simp
  from e 1 2 show ?thesis by blast
qed

text \<open>
  C1, as the specification states it, fails: \<^verbatim>\<open>a.cpp\<close> was recorded with the included
  file \<^verbatim>\<open>a.h\<close> at time 1, and \<^verbatim>\<open>a.h\<close> is now at time 2. The scan leaves \<^verbatim>\<open>a.cpp\<close>
  out of the dirty set and puts \<^verbatim>\<open>a.h\<close> there, with no arguments.
\<close>

theorem updateDB_owner_not_dirty_counterexample:
  "snd (snd (updateDB clang_touched
      (Some [('' '', Serialized [DS_int 0]),
             (''f:a.cpp'', Serialized [DS_args [''-I.''], DS_time 1, DS_deps [(''a.h'', 1)]])])
      CollectData_new)) ''a.cpp'' = None
   \<and> snd (snd (updateDB clang_touched
      (Some [('' '', Serialized [DS_int 0]),
             (''f:a.cpp'', Serialized [DS_args [''-I.''], DS_time 1, DS_deps [(''a.h'', 1)]])])
      CollectData_new)) ''a.h'' = Some []"
  by (simp add: eval_db clang_touched_def clang0_def CollectData_new_def)

text \<open>
  The read of the file does not stop at the size of the key: bytes behind the key
  become part of the file, and a NUL inside the key cuts the file short.
\<close>

lemma updateDB_record_reads_past_key:
  "file (updateDB_record (clang0 \<lparr> Slice_after := (\<lambda>k. ''.o'') \<rparr>) ''f:a.cpp'' v) = ''a.cpp.o''
   \<and> file (updateDB_record clang0 (''f:a'' @ [CHR 0x00] @ ''b'') v) = ''a''"
  by (simp add: updateDB_record_def Slice_data_def c_str_def clang0_def split: prod.splits)

end
